theory Spec2Isabelle
  imports Complex_Main
begin

section \<open>Speaker clustering of the diarization service\<close>

text \<open>
  The development embeds the two clustering operations of
  \<^verbatim>\<open>src/services/diarization/main.py\<close>, \<^verbatim>\<open>cluster_speakers\<close> (unsupervised) and
  \<^verbatim>\<open>cluster_speakers_personalized\<close>.

  Conventions of the embedding:
  \<^item> distances and silhouette scores are \<^typ>\<open>real\<close> numbers; their rounding is
    outside the model;
  \<^item> the cosine distance and the similarity of the personalized operation, whose
    comparison with the threshold decides a label, are NumPy floating-point scalars: a
    number or NaN, with the rounding of \<^verbatim>\<open>1 - x\<close> and of the threshold written out;
  \<^item> an embedding is a \<^typ>\<open>real list\<close>, a missing embedding (Python \<^verbatim>\<open>None\<close>) is
    \<^term>\<open>None\<close>;
  \<^item> an exception is the \<^term>\<open>Inl\<close> branch of the result;
  \<^item> the calls into scikit-learn and SciPy (scaling, linkage, pairwise distances,
    Ward clustering, silhouette score, cosine distance) are fields of a record that
    every operation takes as its first argument: nothing is assumed about them beyond
    what a theorem states, and each of them may raise;
  \<^item> the small NumPy functions whose result a claim depends on (\<^verbatim>\<open>vstack\<close>,
    \<^verbatim>\<open>max\<close>, \<^verbatim>\<open>bincount\<close>, \<^verbatim>\<open>argmax\<close>) are written out;
  \<^item> \<^verbatim>\<open>print\<close> calls and the similarity statistics collected only for printing are
    left out of the two operations; a second embedding of \<^verbatim>\<open>cluster_speakers\<close>, with
    the program state passed through every library call and \<^verbatim>\<open>print\<close>, is given at
    the end of the definitions.
\<close>

subsection \<open>Values, errors and the numeric library\<close>

datatype py_error = ValueError | IndexError

type_synonym vec = "real list"
type_synonym matrix = "real list list"

text \<open>A NumPy floating-point scalar: a number of the scalar's type, or NaN (infinities
  are not modelled).\<close>

datatype npfloat = Num real | NaN

text \<open>
  The library calls of the two operations, in the order of their first use:
  \<^verbatim>\<open>StandardScaler().fit_transform(X)\<close>, \<^verbatim>\<open>linkage(X, method='ward')\<close>,
  \<^verbatim>\<open>pdist(X, metric='euclidean')\<close>,
  \<^verbatim>\<open>AgglomerativeClustering(n_clusters=n, linkage='ward').fit_predict(X)\<close>,
  \<^verbatim>\<open>silhouette_score(X, labels)\<close> and \<^verbatim>\<open>scipy.spatial.distance.cosine(u, v)\<close>.
  The last field is the number of fraction bits of the floating-point type of the
  scalars that \<^verbatim>\<open>cosine\<close> returns: 23 for \<^verbatim>\<open>float32\<close>, 52 for \<^verbatim>\<open>float64\<close>.
\<close>

record numlib =
  fit_transform :: "matrix \<Rightarrow> py_error + matrix"
  linkage :: "matrix \<Rightarrow> py_error + matrix"
  pdist :: "matrix \<Rightarrow> py_error + real list"
  fit_predict :: "nat \<Rightarrow> matrix \<Rightarrow> py_error + nat list"
  silhouette_score :: "matrix \<Rightarrow> nat list \<Rightarrow> py_error + real"
  cosine :: "vec \<Rightarrow> vec \<Rightarrow> py_error + npfloat"
  fraction_bits :: nat

subsection \<open>Floating-point rounding\<close>

text \<open>The binary exponent of a non-zero number: \<open>2 ^ e \<le> |x| < 2 ^ (e + 1)\<close>.\<close>

function float_exp :: "real \<Rightarrow> int" where
  "float_exp x =
     (if x = 0 then 0
      else if 2 \<le> \<bar>x\<bar> then float_exp (x / 2) + 1
      else if \<bar>x\<bar> < 1 then float_exp (x * 2) - 1
      else 0)"
  by pat_completeness auto
termination
proof (relation "measure (\<lambda>x. nat \<bar>\<lfloor>log 2 \<bar>x\<bar>\<rfloor>\<bar>)")
  show "wf (measure (\<lambda>x. nat \<bar>\<lfloor>log 2 \<bar>x\<bar>\<rfloor>\<bar>))" by simp
next
  fix x :: real
  assume x: "x \<noteq> 0" "2 \<le> \<bar>x\<bar>"
  have "log 2 \<bar>x / 2\<bar> = log 2 \<bar>x\<bar> - 1"
    using x by (simp add: log_divide)
  then have f: "\<lfloor>log 2 \<bar>x / 2\<bar>\<rfloor> = \<lfloor>log 2 \<bar>x\<bar>\<rfloor> - 1"
    by simp
  have "1 \<le> log 2 \<bar>x\<bar>"
    using x by (simp add: le_log_iff)
  then have pos: "1 \<le> \<lfloor>log 2 \<bar>x\<bar>\<rfloor>"
    by (simp add: le_floor_iff)
  show "(x / 2, x) \<in> measure (\<lambda>x. nat \<bar>\<lfloor>log 2 \<bar>x\<bar>\<rfloor>\<bar>)"
    unfolding in_measure f using pos by linarith
next
  fix x :: real
  assume x: "x \<noteq> 0" "\<not> 2 \<le> \<bar>x\<bar>" "\<bar>x\<bar> < 1"
  have "log 2 \<bar>x * 2\<bar> = log 2 \<bar>x\<bar> + 1"
    using x by (simp add: log_mult abs_mult)
  then have f: "\<lfloor>log 2 \<bar>x * 2\<bar>\<rfloor> = \<lfloor>log 2 \<bar>x\<bar>\<rfloor> + 1"
    by simp
  have "log 2 \<bar>x\<bar> < 0"
    using x by simp
  then have neg: "\<lfloor>log 2 \<bar>x\<bar>\<rfloor> < 0"
    by (simp add: floor_less_iff)
  show "(x * 2, x) \<in> measure (\<lambda>x. nat \<bar>\<lfloor>log 2 \<bar>x\<bar>\<rfloor>\<bar>)"
    unfolding in_measure f using neg by linarith
qed

text \<open>Rounding to the nearest integer, a tie going to the even one.\<close>

definition round_half_even :: "real \<Rightarrow> int" where
  "round_half_even y =
     (let f = \<lfloor>y\<rfloor>; r = y - of_int f
      in if r < 1 / 2 then f else if 1 / 2 < r then f + 1 else if even f then f else f + 1)"

text \<open>Rounding a number to the nearest number of a binary floating-point type with \<open>p\<close>
  fraction bits (round-to-nearest-even, the IEEE 754 default): the nearest multiple of
  \<open>2 ^ (e - p)\<close>, for the exponent \<open>e\<close> of the number. The exponent range is not
  bounded: overflow and subnormal numbers are not modelled.\<close>

definition round_float :: "nat \<Rightarrow> real \<Rightarrow> real" where
  "round_float p x =
     (if x = 0 then 0
      else sgn x * (of_int (round_half_even (\<bar>x\<bar> / 2 powi (float_exp x - int p))) *
                    2 powi (float_exp x - int p)))"

text \<open>\<^verbatim>\<open>1 - x\<close> for a NumPy scalar \<open>x\<close>: the result has the type of \<open>x\<close>, so the
  difference is rounded to it.\<close>

definition one_minus :: "numlib \<Rightarrow> npfloat \<Rightarrow> npfloat" where
  "one_minus lib x =
     (case x of NaN \<Rightarrow> NaN | Num d \<Rightarrow> Num (round_float (fraction_bits lib) (1 - d)))"

text \<open>\<^verbatim>\<open>x >= t\<close> for a NumPy scalar \<open>x\<close> and a Python float \<open>t\<close>: NumPy (version 2)
  converts the Python float to the type of the scalar and compares there; a comparison
  with NaN is false.\<close>

definition ge_threshold :: "numlib \<Rightarrow> npfloat \<Rightarrow> real \<Rightarrow> bool" where
  "ge_threshold lib x t =
     (case x of NaN \<Rightarrow> False | Num s \<Rightarrow> round_float (fraction_bits lib) t \<le> s)"

subsection \<open>NumPy functions on arrays\<close>

text \<open>\<^verbatim>\<open>np.vstack\<close> of a list of one-dimensional arrays: the arrays become the rows; an
  empty list and rows of different lengths raise \<^verbatim>\<open>ValueError\<close>.\<close>

definition np_vstack :: "vec list \<Rightarrow> py_error + matrix" where
  "np_vstack arrays =
     (if arrays = [] then Inl ValueError
      else if list_all (\<lambda>a. length a = length (hd arrays)) arrays then Inr arrays
      else Inl ValueError)"

text \<open>\<^verbatim>\<open>np.max\<close> of a one-dimensional array; it raises on an empty one.\<close>

definition np_max :: "real list \<Rightarrow> py_error + real" where
  "np_max xs = (if xs = [] then Inl ValueError else Inr (Max (set xs)))"

text \<open>\<^verbatim>\<open>np.bincount\<close> of non-negative integers: entry \<open>v\<close> counts the occurrences of
  \<open>v\<close>, for \<open>v\<close> up to the largest value; the empty array gives the empty array.\<close>

definition np_bincount :: "nat list \<Rightarrow> nat list" where
  "np_bincount xs =
     (if xs = [] then [] else map (count_list xs) [0..<Suc (Max (set xs))])"

text \<open>\<^verbatim>\<open>argmax\<close>: the index of the first occurrence of the maximum; it raises on an
  empty array.\<close>

fun argmax_from :: "nat list \<Rightarrow> nat \<Rightarrow> nat \<Rightarrow> nat \<Rightarrow> nat" where
  "argmax_from [] i best_i best_v = best_i"
| "argmax_from (x # xs) i best_i best_v =
     (if best_v < x then argmax_from xs (Suc i) i x
      else argmax_from xs (Suc i) best_i best_v)"

definition np_argmax :: "nat list \<Rightarrow> py_error + nat" where
  "np_argmax xs =
     (case xs of [] \<Rightarrow> Inl ValueError | x # rest \<Rightarrow> Inr (argmax_from rest 1 0 x))"

text \<open>Python's \<^verbatim>\<open>str\<close> of a non-negative integer, as used by the f-strings
  \<^verbatim>\<open>f"speaker_{...}"\<close> and \<^verbatim>\<open>f"OTHER_{...}"\<close>.\<close>

definition digit_char :: "nat \<Rightarrow> char" where
  "digit_char d = ''0123456789'' ! d"

function str_nat :: "nat \<Rightarrow> string" where
  "str_nat n =
     (if n < 10 then [digit_char n] else str_nat (n div 10) @ [digit_char (n mod 10)])"
  by pat_completeness auto
termination
  by (relation "measure id") auto

definition speaker_label :: "nat \<Rightarrow> string" where
  "speaker_label c = ''speaker_'' @ str_nat c"

definition other_label :: "nat \<Rightarrow> string" where
  "other_label c = ''OTHER_'' @ str_nat c"

subsection \<open>Valid embeddings (lines 224-225 and 349-350)\<close>

definition valid_indices :: "'a option list \<Rightarrow> nat list" where
  "valid_indices embeddings = filter (\<lambda>i. embeddings ! i \<noteq> None) [0..<length embeddings]"

definition valid_embeddings :: "'a option list \<Rightarrow> 'a list" where
  "valid_embeddings embeddings = map (\<lambda>i. the (embeddings ! i)) (valid_indices embeddings)"

subsection \<open>The search for the number of clusters (lines 385-393 and 289-297)\<close>

text \<open>
  One iteration of the loop over the candidate cluster counts: the Ward partition into
  \<open>n\<close> clusters is scored when it has more than one distinct label, and the candidate
  replaces the current best only on a strictly greater score. The loop body is the same
  text in both operations.
\<close>

definition search_step ::
  "numlib \<Rightarrow> matrix \<Rightarrow> real \<times> nat \<Rightarrow> nat \<Rightarrow> py_error + real \<times> nat" where
  "search_step lib X_scaled best n =
     (case fit_predict lib n X_scaled of
        Inl e \<Rightarrow> Inl e
      | Inr labels \<Rightarrow>
          if card (set labels) > 1 then
            (case silhouette_score lib X_scaled labels of
               Inl e \<Rightarrow> Inl e
             | Inr score \<Rightarrow> if score > fst best then Inr (score, n) else Inr best)
          else Inr best)"

fun silhouette_search ::
  "numlib \<Rightarrow> matrix \<Rightarrow> real \<times> nat \<Rightarrow> nat list \<Rightarrow> py_error + real \<times> nat" where
  "silhouette_search lib X_scaled best [] = Inr best"
| "silhouette_search lib X_scaled best (n # ns) =
     (case search_step lib X_scaled best n of
        Inl e \<Rightarrow> Inl e
      | Inr best' \<Rightarrow> silhouette_search lib X_scaled best' ns)"

subsection \<open>Unsupervised clustering: \<^verbatim>\<open>cluster_speakers\<close> (lines 343-418)\<close>

text \<open>Lines 372-395: one cluster below the distance threshold 19, otherwise the best
  candidate of \<^verbatim>\<open>range(2, min(10, len(X) - 1) + 1)\<close>, starting from
  \<^verbatim>\<open>best_score = -1\<close> and \<^verbatim>\<open>best_n = 2\<close>.\<close>

definition select_n_clusters :: "numlib \<Rightarrow> matrix \<Rightarrow> nat \<Rightarrow> real \<Rightarrow> py_error + nat" where
  "select_n_clusters lib X_scaled len_X max_distance =
     (if max_distance < 19 then Inr 1
      else
        (case silhouette_search lib X_scaled (- 1, 2) [2..<min 10 (len_X - 1) + 1] of
           Inl e \<Rightarrow> Inl e
         | Inr (best_score, best_n) \<Rightarrow> Inr best_n))"

text \<open>Lines 408-416: the labels of the valid embeddings are read in order with the
  counter \<^verbatim>\<open>valid_label_idx\<close>; an index without embedding gets the most common label.\<close>

fun map_labels_back ::
  "vec option list \<Rightarrow> nat list \<Rightarrow> nat \<Rightarrow> string list \<Rightarrow> nat \<Rightarrow> py_error + string list" where
  "map_labels_back [] valid_labels most_common_label all_labels valid_label_idx =
     Inr all_labels"
| "map_labels_back (Some emb # rest) valid_labels most_common_label all_labels valid_label_idx =
     (if valid_label_idx < length valid_labels then
        map_labels_back rest valid_labels most_common_label
          (all_labels @ [speaker_label (valid_labels ! valid_label_idx)]) (valid_label_idx + 1)
      else Inl IndexError)"
| "map_labels_back (None # rest) valid_labels most_common_label all_labels valid_label_idx =
     map_labels_back rest valid_labels most_common_label
       (all_labels @ [speaker_label most_common_label]) valid_label_idx"

text \<open>Lines 399-418: the final clustering with the selected number of clusters.\<close>

definition final_clustering ::
  "numlib \<Rightarrow> matrix \<Rightarrow> vec option list \<Rightarrow> nat \<Rightarrow> py_error + string list" where
  "final_clustering lib X_scaled embeddings n_clusters =
     (if n_clusters = 1 then Inr (replicate (length embeddings) ''speaker_0'')
      else
        (case fit_predict lib n_clusters X_scaled of
           Inl e \<Rightarrow> Inl e
         | Inr valid_labels \<Rightarrow>
             (case np_argmax (np_bincount valid_labels) of
                Inl e \<Rightarrow> Inl e
              | Inr most_common_label \<Rightarrow>
                  map_labels_back embeddings valid_labels most_common_label [] 0)))"

definition cluster_speakers ::
  "numlib \<Rightarrow> vec option list \<Rightarrow> 'seg list \<Rightarrow> py_error + string list" where
  "cluster_speakers lib embeddings segments =
     (if embeddings = [] then Inr []
      else if valid_embeddings embeddings = [] then
        Inr (replicate (length embeddings) ''speaker_0'')
      else
        (case np_vstack (valid_embeddings embeddings) of
           Inl e \<Rightarrow> Inl e
         | Inr X \<Rightarrow>
             if length X < 2 then Inr (replicate (length embeddings) ''speaker_0'')
             else
               (case fit_transform lib X of
                  Inl e \<Rightarrow> Inl e
                | Inr X_scaled \<Rightarrow>
                    (case linkage lib X_scaled of
                       Inl e \<Rightarrow> Inl e
                     | Inr linkage_matrix \<Rightarrow>
                         (case pdist lib X_scaled of
                            Inl e \<Rightarrow> Inl e
                          | Inr distances \<Rightarrow>
                              (case np_max distances of
                                 Inl e \<Rightarrow> Inl e
                               | Inr max_distance \<Rightarrow>
                                   (case select_n_clusters lib X_scaled (length X) max_distance of
                                      Inl e \<Rightarrow> Inl e
                                    | Inr n_clusters \<Rightarrow>
                                        final_clustering lib X_scaled embeddings n_clusters)))))))"

subsection \<open>Personalized clustering: \<^verbatim>\<open>cluster_speakers_personalized\<close> (lines 202-341)\<close>

text \<open>The three lists the first loop builds. A \<^term>\<open>None\<close> entry of \<open>all_labels\<close> is
  the placeholder of line 260.\<close>

record scan =
  all_labels :: "string option list"
  other_embeddings :: "vec list"
  other_indices :: "nat list"

text \<open>Lines 244-264: the loop over \<^verbatim>\<open>enumerate(embeddings)\<close>, \<open>i\<close> being the running
  index. The similarity is one minus SciPy's cosine distance, a NumPy scalar, and is
  compared with the threshold, a Python float.\<close>

fun compare_with_user ::
  "numlib \<Rightarrow> vec \<Rightarrow> real \<Rightarrow> nat \<Rightarrow> vec option list \<Rightarrow> scan \<Rightarrow> py_error + scan" where
  "compare_with_user lib user_embedding similarity_threshold i [] st = Inr st"
| "compare_with_user lib user_embedding similarity_threshold i (None # rest) st =
     compare_with_user lib user_embedding similarity_threshold (i + 1) rest
       (st\<lparr>all_labels := all_labels st @ [Some ''YOU'']\<rparr>)"
| "compare_with_user lib user_embedding similarity_threshold i (Some emb # rest) st =
     (case cosine lib emb user_embedding of
        Inl e \<Rightarrow> Inl e
      | Inr d \<Rightarrow>
          let similarity = one_minus lib d in
          if ge_threshold lib similarity similarity_threshold then
            compare_with_user lib user_embedding similarity_threshold (i + 1) rest
              (st\<lparr>all_labels := all_labels st @ [Some ''YOU'']\<rparr>)
          else
            compare_with_user lib user_embedding similarity_threshold (i + 1) rest
              (st\<lparr>all_labels := all_labels st @ [None],
                  other_embeddings := other_embeddings st @ [emb],
                  other_indices := other_indices st @ [i]\<rparr>))"

text \<open>Lines 279-299: one cluster below the distance threshold 19, otherwise the best
  candidate of \<^verbatim>\<open>range(2, min(5, len(X) - 1) + 1)\<close>, starting from
  \<^verbatim>\<open>best_score = -1\<close> and \<^verbatim>\<open>best_n = 1\<close>, accepted only with a score above 0.2.\<close>

definition select_other_clusters ::
  "numlib \<Rightarrow> matrix \<Rightarrow> nat \<Rightarrow> real \<Rightarrow> py_error + nat" where
  "select_other_clusters lib X_scaled len_X max_distance =
     (if max_distance < 19 \<or> len_X < 2 then Inr 1
      else
        (case silhouette_search lib X_scaled (- 1, 1) [2..<min 5 (len_X - 1) + 1] of
           Inl e \<Rightarrow> Inl e
         | Inr (best_score, best_n) \<Rightarrow> Inr (if best_score > 2 / 10 then best_n else 1)))"

text \<open>Lines 303-309: the labels of the non-user embeddings.\<close>

definition label_others ::
  "numlib \<Rightarrow> matrix \<Rightarrow> nat \<Rightarrow> nat \<Rightarrow> py_error + string list" where
  "label_others lib X_scaled n_other n_clusters =
     (if n_clusters = 1 then Inr (replicate n_other ''OTHER'')
      else
        (case fit_predict lib n_clusters X_scaled of
           Inl e \<Rightarrow> Inl e
         | Inr cluster_ids \<Rightarrow> Inr (map other_label cluster_ids)))"

text \<open>Lines 311-313: \<^verbatim>\<open>all_labels[other_idx] = other_labels[idx]\<close> over
  \<^verbatim>\<open>enumerate(other_indices)\<close>; both subscripts raise out of range.\<close>

fun fill_other_labels ::
  "nat \<Rightarrow> nat list \<Rightarrow> string list \<Rightarrow> string option list \<Rightarrow> py_error + string option list" where
  "fill_other_labels idx [] other_labels labels = Inr labels"
| "fill_other_labels idx (other_idx # rest) other_labels labels =
     (if idx < length other_labels \<and> other_idx < length labels then
        fill_other_labels (idx + 1) rest other_labels
          (labels[other_idx := Some (other_labels ! idx)])
      else Inl IndexError)"

text \<open>Lines 266-317: what happens to the placeholders, by the number of non-user
  embeddings.\<close>

definition cluster_others :: "numlib \<Rightarrow> scan \<Rightarrow> py_error + string option list" where
  "cluster_others lib st =
     (if length (other_embeddings st) > 1 then
        (case np_vstack (other_embeddings st) of
           Inl e \<Rightarrow> Inl e
         | Inr X \<Rightarrow>
             (case fit_transform lib X of
                Inl e \<Rightarrow> Inl e
              | Inr X_scaled \<Rightarrow>
                  (case linkage lib X_scaled of
                     Inl e \<Rightarrow> Inl e
                   | Inr linkage_matrix \<Rightarrow>
                       (case pdist lib X_scaled of
                          Inl e \<Rightarrow> Inl e
                        | Inr distances \<Rightarrow>
                            (case np_max distances of
                               Inl e \<Rightarrow> Inl e
                             | Inr max_distance \<Rightarrow>
                                 (case select_other_clusters lib X_scaled (length X) max_distance of
                                    Inl e \<Rightarrow> Inl e
                                  | Inr n_clusters \<Rightarrow>
                                      (case label_others lib X_scaled
                                              (length (other_embeddings st)) n_clusters of
                                         Inl e \<Rightarrow> Inl e
                                       | Inr other_labels \<Rightarrow>
                                           fill_other_labels 0 (other_indices st) other_labels
                                             (all_labels st))))))))
      else if length (other_embeddings st) = 1 then
        (if other_indices st \<noteq> [] \<and> hd (other_indices st) < length (all_labels st) then
           Inr ((all_labels st)[hd (other_indices st) := Some ''OTHER''])
         else Inl IndexError)
      else Inr (all_labels st))"

definition cluster_speakers_personalized ::
  "numlib \<Rightarrow> vec option list \<Rightarrow> vec \<Rightarrow> real \<Rightarrow> py_error + string option list" where
  "cluster_speakers_personalized lib embeddings user_embedding similarity_threshold =
     (if embeddings = [] then Inr []
      else if valid_embeddings embeddings = [] then
        Inr (replicate (length embeddings) (Some ''YOU''))
      else
        (case compare_with_user lib user_embedding similarity_threshold 0 embeddings
                \<lparr>all_labels = [], other_embeddings = [], other_indices = []\<rparr> of
           Inl e \<Rightarrow> Inl e
         | Inr st \<Rightarrow> cluster_others lib st))"

subsection \<open>Notions used by the statements\<close>

text \<open>An index is a pending non-user candidate when its embedding is present and the
  test \<^verbatim>\<open>similarity >= similarity_threshold\<close> of line 254 fails.\<close>

definition pending_other :: "numlib \<Rightarrow> vec \<Rightarrow> real \<Rightarrow> vec option \<Rightarrow> bool" where
  "pending_other lib user_embedding similarity_threshold emb =
     (case emb of
        None \<Rightarrow> False
      | Some e \<Rightarrow>
          (case cosine lib e user_embedding of
             Inl err \<Rightarrow> False
           | Inr d \<Rightarrow> \<not> ge_threshold lib (one_minus lib d) similarity_threshold))"

text \<open>The indices of the pending non-user candidates, in increasing order.\<close>

definition pending_indices :: "numlib \<Rightarrow> vec \<Rightarrow> real \<Rightarrow> vec option list \<Rightarrow> nat list" where
  "pending_indices lib user_embedding similarity_threshold embeddings =
     filter (\<lambda>k. pending_other lib user_embedding similarity_threshold (embeddings ! k))
       [0..<length embeddings]"

text \<open>The labels \<^verbatim>\<open>"OTHER"\<close> and \<^verbatim>\<open>"OTHER_<cluster-id>"\<close>.\<close>

definition other_family :: "string option \<Rightarrow> bool" where
  "other_family l \<longleftrightarrow> l = Some ''OTHER'' \<or> (\<exists>c. l = Some (other_label c))"

text \<open>The shape contract of scikit-learn: scaling keeps the number of rows, and a
  clustering returns one label per row.\<close>

definition keeps_rows :: "numlib \<Rightarrow> bool" where
  "keeps_rows lib \<longleftrightarrow>
     (\<forall>X X_scaled. fit_transform lib X = Inr X_scaled \<longrightarrow> length X_scaled = length X) \<and>
     (\<forall>n X labels. fit_predict lib n X = Inr labels \<longrightarrow> length labels = length X)"

text \<open>A library none of whose calls raises: the cosine distance on two vectors of the
  same length, the other calls on every argument; the pairwise distances of two or more
  rows are not empty.\<close>

definition never_raises :: "numlib \<Rightarrow> bool" where
  "never_raises lib \<longleftrightarrow>
     (\<forall>X. \<exists>X_scaled. fit_transform lib X = Inr X_scaled) \<and>
     (\<forall>X. \<exists>linkage_matrix. linkage lib X = Inr linkage_matrix) \<and>
     (\<forall>X. \<exists>distances. pdist lib X = Inr distances \<and> (2 \<le> length X \<longrightarrow> distances \<noteq> [])) \<and>
     (\<forall>n X. \<exists>labels. fit_predict lib n X = Inr labels) \<and>
     (\<forall>X labels. \<exists>score. silhouette_score lib X labels = Inr score) \<and>
     (\<forall>u v. length u = length v \<longrightarrow> (\<exists>d. cosine lib u v = Inr d))"

text \<open>The contract of SciPy's cosine distance on its arguments' shapes: vectors of
  different lengths are refused with \<^verbatim>\<open>ValueError\<close>.\<close>

definition cosine_checks_lengths :: "numlib \<Rightarrow> bool" where
  "cosine_checks_lengths lib \<longleftrightarrow>
     (\<forall>u v. length u \<noteq> length v \<longrightarrow> cosine lib u v = Inl ValueError)"

subsection \<open>A sample library\<close>

text \<open>
  A small instance of the library record, on which the theorems below are instantiated
  at concrete embeddings. It is not a model of scikit-learn: the scaling is the identity,
  distances are sums of absolute differences (the Euclidean distance on rows of one
  component), labels are dealt round-robin, a partition into three clusters scores 3/4
  and any other 1/2, and the cosine distance is one minus the dot product (the cosine
  distance of unit vectors) as a \<^verbatim>\<open>float32\<close>, raising on vectors of different lengths.
\<close>

definition manhattan :: "vec \<Rightarrow> vec \<Rightarrow> real" where
  "manhattan u v = sum_list (map2 (\<lambda>a b. \<bar>a - b\<bar>) u v)"

fun pairwise :: "(vec \<Rightarrow> vec \<Rightarrow> real) \<Rightarrow> matrix \<Rightarrow> real list" where
  "pairwise d [] = []"
| "pairwise d (x # xs) = map (d x) xs @ pairwise d xs"

fun round_robin :: "nat \<Rightarrow> nat \<Rightarrow> 'a list \<Rightarrow> nat list" where
  "round_robin n i [] = []"
| "round_robin n i (x # xs) = (i mod n) # round_robin n (Suc i) xs"

definition dot :: "vec \<Rightarrow> vec \<Rightarrow> real" where
  "dot u v = sum_list (map2 (\<lambda>a b. a * b) u v)"

definition sample_lib :: numlib where
  "sample_lib =
     \<lparr>fit_transform = (\<lambda>X. Inr X),
      linkage = (\<lambda>X. Inr []),
      pdist = (\<lambda>X. Inr (pairwise manhattan X)),
      fit_predict = (\<lambda>n X. Inr (round_robin n 0 X)),
      silhouette_score = (\<lambda>X labels. Inr (if card (set labels) = 3 then 3 / 4 else 1 / 2)),
      cosine = (\<lambda>u v. if length u = length v then Inr (Num (round_float 23 (1 - dot u v)))
                      else Inl ValueError),
      fraction_bits = 23\<rparr>"



subsection \<open>\<^verbatim>\<open>cluster_speakers\<close> with the program state (lines 343-418)\<close>

text \<open>
  The same function once more, with its effects: every library call and every
  \<^verbatim>\<open>print\<close> takes the state of the program (global variables, the state of the
  libraries, the output written so far) and returns the state it leaves. The state is
  any type \<open>'w\<close>; a library call may read and change it, so that two calls with equal
  arguments may differ. An exception ends the run with the state reached.
\<close>

datatype message = No_valid_embeddings | Detected nat

record 'w runtime =
  run_fit_transform :: "matrix \<Rightarrow> 'w \<Rightarrow> (py_error + matrix) \<times> 'w"
  run_linkage :: "matrix \<Rightarrow> 'w \<Rightarrow> (py_error + matrix) \<times> 'w"
  run_pdist :: "matrix \<Rightarrow> 'w \<Rightarrow> (py_error + real list) \<times> 'w"
  run_fit_predict :: "nat \<Rightarrow> matrix \<Rightarrow> 'w \<Rightarrow> (py_error + nat list) \<times> 'w"
  run_silhouette_score :: "matrix \<Rightarrow> nat list \<Rightarrow> 'w \<Rightarrow> (py_error + real) \<times> 'w"
  run_print :: "message \<Rightarrow> 'w \<Rightarrow> 'w"

definition return_run :: "'a \<Rightarrow> 'w \<Rightarrow> (py_error + 'a) \<times> 'w" where
  "return_run x w = (Inr x, w)"

definition lift_run :: "py_error + 'a \<Rightarrow> 'w \<Rightarrow> (py_error + 'a) \<times> 'w" where
  "lift_run r w = (r, w)"

definition bind_run ::
  "('w \<Rightarrow> (py_error + 'a) \<times> 'w) \<Rightarrow> ('a \<Rightarrow> 'w \<Rightarrow> (py_error + 'b) \<times> 'w) \<Rightarrow>
   'w \<Rightarrow> (py_error + 'b) \<times> 'w" where
  "bind_run m f w = (case m w of (Inl e, w') \<Rightarrow> (Inl e, w') | (Inr x, w') \<Rightarrow> f x w')"

definition print_run :: "'w runtime \<Rightarrow> message \<Rightarrow> 'w \<Rightarrow> (py_error + unit) \<times> 'w" where
  "print_run rt m w = (Inr (), run_print rt m w)"

definition search_step_run ::
  "'w runtime \<Rightarrow> matrix \<Rightarrow> real \<times> nat \<Rightarrow> nat \<Rightarrow> 'w \<Rightarrow> (py_error + real \<times> nat) \<times> 'w" where
  "search_step_run rt X_scaled best n =
     bind_run (run_fit_predict rt n X_scaled) (\<lambda>labels.
       if card (set labels) > 1 then
         bind_run (run_silhouette_score rt X_scaled labels) (\<lambda>score.
           return_run (if score > fst best then (score, n) else best))
       else return_run best)"

fun silhouette_search_run ::
  "'w runtime \<Rightarrow> matrix \<Rightarrow> real \<times> nat \<Rightarrow> nat list \<Rightarrow> 'w \<Rightarrow> (py_error + real \<times> nat) \<times> 'w" where
  "silhouette_search_run rt X_scaled best [] = return_run best"
| "silhouette_search_run rt X_scaled best (n # ns) =
     bind_run (search_step_run rt X_scaled best n) (\<lambda>best'.
       silhouette_search_run rt X_scaled best' ns)"

definition select_n_clusters_run ::
  "'w runtime \<Rightarrow> matrix \<Rightarrow> nat \<Rightarrow> real \<Rightarrow> 'w \<Rightarrow> (py_error + nat) \<times> 'w" where
  "select_n_clusters_run rt X_scaled len_X max_distance =
     (if max_distance < 19 then return_run 1
      else
        bind_run (silhouette_search_run rt X_scaled (- 1, 2) [2..<min 10 (len_X - 1) + 1])
          (\<lambda>best. return_run (snd best)))"

definition final_clustering_run ::
  "'w runtime \<Rightarrow> matrix \<Rightarrow> vec option list \<Rightarrow> nat \<Rightarrow> 'w \<Rightarrow> (py_error + string list) \<times> 'w" where
  "final_clustering_run rt X_scaled embeddings n_clusters =
     (if n_clusters = 1 then return_run (replicate (length embeddings) ''speaker_0'')
      else
        bind_run (run_fit_predict rt n_clusters X_scaled) (\<lambda>valid_labels.
          bind_run (lift_run (np_argmax (np_bincount valid_labels))) (\<lambda>most_common_label.
            lift_run (map_labels_back embeddings valid_labels most_common_label [] 0))))"

definition cluster_speakers_run ::
  "'w runtime \<Rightarrow> vec option list \<Rightarrow> 'seg list \<Rightarrow> 'w \<Rightarrow> (py_error + string list) \<times> 'w" where
  "cluster_speakers_run rt embeddings segments =
     (if embeddings = [] then return_run []
      else if valid_embeddings embeddings = [] then
        bind_run (print_run rt No_valid_embeddings) (\<lambda>_.
          return_run (replicate (length embeddings) ''speaker_0''))
      else
        bind_run (lift_run (np_vstack (valid_embeddings embeddings))) (\<lambda>X.
          if length X < 2 then return_run (replicate (length embeddings) ''speaker_0'')
          else
            bind_run (run_fit_transform rt X) (\<lambda>X_scaled.
            bind_run (run_linkage rt X_scaled) (\<lambda>linkage_matrix.
            bind_run (run_pdist rt X_scaled) (\<lambda>distances.
            bind_run (lift_run (np_max distances)) (\<lambda>max_distance.
            bind_run (select_n_clusters_run rt X_scaled (length X) max_distance) (\<lambda>n_clusters.
            bind_run (print_run rt (Detected n_clusters)) (\<lambda>_.
              final_clustering_run rt X_scaled embeddings n_clusters))))))))"

text \<open>The library of a run gives the results of \<open>lib\<close>: what each call returns
  depends on its arguments alone, not on the state in which it is made.\<close>

definition results_of :: "'w runtime \<Rightarrow> numlib \<Rightarrow> bool" where
  "results_of rt lib \<longleftrightarrow>
     (\<forall>X w. fst (run_fit_transform rt X w) = fit_transform lib X) \<and>
     (\<forall>X w. fst (run_linkage rt X w) = linkage lib X) \<and>
     (\<forall>X w. fst (run_pdist rt X w) = pdist lib X) \<and>
     (\<forall>n X w. fst (run_fit_predict rt n X w) = fit_predict lib n X) \<and>
     (\<forall>X labels w. fst (run_silhouette_score rt X labels w) = silhouette_score lib X labels)"

text \<open>A sample run-time: the state counts the library calls and collects the printed
  messages; the results are those of the sample library.\<close>

definition sample_runtime :: "(nat \<times> message list) runtime" where
  "sample_runtime =
     \<lparr>run_fit_transform = (\<lambda>X (c, out). (fit_transform sample_lib X, (c + 1, out))),
      run_linkage = (\<lambda>X (c, out). (linkage sample_lib X, (c + 1, out))),
      run_pdist = (\<lambda>X (c, out). (pdist sample_lib X, (c + 1, out))),
      run_fit_predict = (\<lambda>n X (c, out). (fit_predict sample_lib n X, (c + 1, out))),
      run_silhouette_score =
        (\<lambda>X labels (c, out). (silhouette_score sample_lib X labels, (c + 1, out))),
      run_print = (\<lambda>m (c, out). (c, out @ [m]))\<rparr>"

section \<open>Auxiliary facts\<close>

declare str_nat.simps [simp del]

declare float_exp.simps [simp del]

subsection \<open>Floating-point rounding\<close>

lemma pow2_succ: "(2 :: real) powi (e + 1) = 2 * 2 powi e"
  by (simp add: power_int_add)

lemma pow2_pred: "(2 :: real) powi (e - 1) = 2 powi e / 2"
  by (simp add: power_int_diff)

lemma float_exp_bounds:
  "x \<noteq> 0 \<Longrightarrow> 2 powi float_exp x \<le> \<bar>x\<bar> \<and> \<bar>x\<bar> < 2 powi (float_exp x + 1)"
proof (induction x rule: float_exp.induct)
  case (1 x)
  consider (big) "2 \<le> \<bar>x\<bar>" | (small) "\<bar>x\<bar> < 1" | (unit) "1 \<le> \<bar>x\<bar>" "\<bar>x\<bar> < 2"
    by linarith
  then show ?case
  proof cases
    case big
    then have e: "float_exp x = float_exp (x / 2) + 1"
      using "1.prems" by (subst float_exp.simps) simp
    have "2 powi float_exp (x / 2) \<le> \<bar>x / 2\<bar> \<and> \<bar>x / 2\<bar> < 2 powi (float_exp (x / 2) + 1)"
      using "1.IH"(1) "1.prems" big by simp
    then show ?thesis
      unfolding e pow2_succ by (simp add: abs_divide)
  next
    case small
    then have e: "float_exp x = float_exp (x * 2) - 1"
      using "1.prems" by (subst float_exp.simps) simp
    have "2 powi float_exp (x * 2) \<le> \<bar>x * 2\<bar> \<and> \<bar>x * 2\<bar> < 2 powi (float_exp (x * 2) + 1)"
      using "1.IH"(2) "1.prems" small by simp
    then show ?thesis
      unfolding e pow2_succ pow2_pred by (simp add: abs_mult pow2_succ)
  next
    case unit
    then have e: "float_exp x = 0"
      using "1.prems" by (subst float_exp.simps) simp
    show ?thesis
      unfolding e using unit by simp
  qed
qed

lemma float_exp_mono:
  assumes "0 < x" and "x \<le> y"
  shows "float_exp x \<le> float_exp y"
proof (rule ccontr)
  assume "\<not> float_exp x \<le> float_exp y"
  then have "float_exp y + 1 \<le> float_exp x" by simp
  then have "(2 :: real) powi (float_exp y + 1) \<le> 2 powi float_exp x"
    by (intro power_int_increasing) simp_all
  moreover have "y < 2 powi (float_exp y + 1)"
    using float_exp_bounds [of y] assms by simp
  moreover have "2 powi float_exp x \<le> x"
    using float_exp_bounds [of x] assms by simp
  ultimately show False using assms by linarith
qed

lemma round_half_even_floor:
  "\<lfloor>y\<rfloor> \<le> round_half_even y \<and> round_half_even y \<le> \<lfloor>y\<rfloor> + 1"
  by (simp add: round_half_even_def Let_def)

lemma round_half_even_of_int [simp]: "round_half_even (of_int m) = m"
  by (simp add: round_half_even_def Let_def)

lemma round_half_even_mono:
  assumes "y \<le> y'"
  shows "round_half_even y \<le> round_half_even y'"
proof (cases "\<lfloor>y\<rfloor> = \<lfloor>y'\<rfloor>")
  case True
  then show ?thesis
    using assms by (auto simp: round_half_even_def Let_def)
next
  case False
  then have "\<lfloor>y\<rfloor> + 1 \<le> \<lfloor>y'\<rfloor>"
    using floor_mono [OF assms] by linarith
  then show ?thesis
    using round_half_even_floor [of y] round_half_even_floor [of y'] by linarith
qed

lemma round_float_pos_bounds:
  assumes "0 < x"
  shows "2 powi float_exp x \<le> round_float p x"
    and "round_float p x \<le> 2 powi (float_exp x + 1)"
proof -
  define q :: real where "q = 2 powi (float_exp x - int p)"
  have q: "0 < q" by (simp add: q_def)
  have lo: "q * 2 ^ p = 2 powi float_exp x"
    by (simp add: q_def power_int_diff)
  have hi: "q * 2 ^ Suc p = 2 powi (float_exp x + 1)"
    by (simp add: q_def power_int_diff power_int_add_1)
  have fl: "round_float p x = of_int (round_half_even (x / q)) * q"
    using assms by (simp add: round_float_def q_def)
  have "of_int (2 ^ p) \<le> x / q"
    using float_exp_bounds [of x] assms q lo by (simp add: pos_le_divide_eq mult.commute)
  then have "round_half_even (of_int (2 ^ p)) \<le> round_half_even (x / q)"
    by (rule round_half_even_mono)
  then have "(2 :: real) ^ p \<le> of_int (round_half_even (x / q))"
    by (simp only: round_half_even_of_int) (metis of_int_le_iff of_int_numeral of_int_power)
  then have "2 ^ p * q \<le> of_int (round_half_even (x / q)) * q"
    using q by simp
  then show "2 powi float_exp x \<le> round_float p x"
    unfolding fl using lo by (simp add: mult.commute)
  have "x / q \<le> of_int (2 ^ Suc p)"
    using float_exp_bounds [of x] assms q hi by (simp add: pos_divide_le_eq mult.commute)
  then have "round_half_even (x / q) \<le> round_half_even (of_int (2 ^ Suc p))"
    by (rule round_half_even_mono)
  then have "of_int (round_half_even (x / q)) \<le> (2 :: real) ^ Suc p"
    by (simp only: round_half_even_of_int) (metis of_int_le_iff of_int_numeral of_int_power)
  then have "of_int (round_half_even (x / q)) * q \<le> 2 ^ Suc p * q"
    using q by simp
  then show "round_float p x \<le> 2 powi (float_exp x + 1)"
    unfolding fl using hi by (simp add: mult.commute)
qed

lemma round_float_mono_pos:
  assumes "0 < x" and "x \<le> y"
  shows "round_float p x \<le> round_float p y"
proof (cases "float_exp x = float_exp y")
  case True
  define q :: real where "q = 2 powi (float_exp y - int p)"
  have q: "0 < q" by (simp add: q_def)
  have "x / q \<le> y / q" using assms q by (simp add: divide_right_mono)
  then have "round_half_even (x / q) \<le> round_half_even (y / q)"
    by (rule round_half_even_mono)
  then have "of_int (round_half_even (x / q)) * q \<le> of_int (round_half_even (y / q)) * q"
    using q by simp
  then show ?thesis
    using assms True by (simp add: round_float_def q_def)
next
  case False
  then have "float_exp x + 1 \<le> float_exp y"
    using float_exp_mono [OF assms] by linarith
  then have "(2 :: real) powi (float_exp x + 1) \<le> 2 powi float_exp y"
    by (intro power_int_increasing) simp_all
  moreover have "round_float p x \<le> 2 powi (float_exp x + 1)"
    using assms by (intro round_float_pos_bounds)
  moreover have "2 powi float_exp y \<le> round_float p y"
    using assms by (intro round_float_pos_bounds) simp
  ultimately show ?thesis by linarith
qed

lemma float_exp_minus: "float_exp (- x) = float_exp x"
proof (induction x rule: float_exp.induct)
  case (1 x)
  show ?case
    using "1.IH" by (subst float_exp.simps, subst (2) float_exp.simps) simp
qed

lemma round_float_minus: "round_float p (- x) = - round_float p x"
  by (simp add: round_float_def float_exp_minus sgn_minus)

lemma round_float_sign:
  "0 < x \<Longrightarrow> 0 < round_float p x" "round_float p 0 = 0"
proof -
  show "round_float p 0 = 0" by (simp add: round_float_def)
  assume x: "0 < x"
  have "(0 :: real) < 2 powi float_exp x" by simp
  then show "0 < round_float p x"
    using round_float_pos_bounds(1) [OF x, of p] by linarith
qed

lemma round_float_mono:
  assumes "x \<le> y"
  shows "round_float p x \<le> round_float p y"
proof -
  consider (pp) "0 < x" | (np) "x \<le> 0" "0 \<le> y" | (nn) "y < 0"
    using assms by linarith
  then show ?thesis
  proof cases
    case pp
    then show ?thesis using assms by (rule round_float_mono_pos)
  next
    case np
    have "round_float p x \<le> 0"
    proof (cases "x = 0")
      case True
      then show ?thesis by (simp add: round_float_sign)
    next
      case False
      then have "0 < - x" using np by simp
      then have "0 < round_float p (- x)" by (rule round_float_sign)
      then show ?thesis by (simp add: round_float_minus)
    qed
    moreover have "0 \<le> round_float p y"
    proof (cases "y = 0")
      case True
      then show ?thesis by (simp add: round_float_sign)
    next
      case False
      then have "0 < y" using np by simp
      then have "0 < round_float p y" by (rule round_float_sign)
      then show ?thesis by simp
    qed
    ultimately show ?thesis by linarith
  next
    case nn
    then have "0 < - y" "- y \<le> - x" using assms by simp_all
    then have "round_float p (- y) \<le> round_float p (- x)"
      by (rule round_float_mono_pos)
    then show ?thesis by (simp add: round_float_minus)
  qed
qed




lemma ge_threshold_mono:
  "t1 \<le> t2 \<Longrightarrow> ge_threshold lib s t2 \<Longrightarrow> ge_threshold lib s t1"
  using round_float_mono [of t1 t2 "fraction_bits lib"]
  by (auto simp: ge_threshold_def split: npfloat.splits)


subsection \<open>Decimal numerals and labels\<close>

lemma digit_chars:
  "digit_char 0 = CHR ''0''" "digit_char (Suc 0) = CHR ''1''" "digit_char 2 = CHR ''2''"
  "digit_char 3 = CHR ''3''" "digit_char 4 = CHR ''4''" "digit_char 5 = CHR ''5''"
  "digit_char 6 = CHR ''6''" "digit_char 7 = CHR ''7''" "digit_char 8 = CHR ''8''"
  "digit_char 9 = CHR ''9''"
  by (simp_all add: digit_char_def)

lemma digit_char_code: "d < 10 \<Longrightarrow> (of_char (digit_char d) :: nat) = 48 + d"
proof -
  assume "d < 10"
  then have "d = 0 \<or> d = 1 \<or> d = 2 \<or> d = 3 \<or> d = 4 \<or> d = 5 \<or> d = 6
    \<or> d = 7 \<or> d = 8 \<or> d = 9"
    by arith
  then show ?thesis
    by (auto simp: digit_chars)
qed

lemma digit_char_inj: "d < 10 \<Longrightarrow> d' < 10 \<Longrightarrow> digit_char d = digit_char d' \<Longrightarrow> d = d'"
  by (metis digit_char_code add_left_cancel)

lemma length_str_nat_small: "n < 10 \<Longrightarrow> length (str_nat n) = 1"
  by (simp add: str_nat.simps)

lemma length_str_nat_pos: "0 < length (str_nat n)"
  by (subst str_nat.simps) simp

lemma length_str_nat_big: "\<not> n < 10 \<Longrightarrow> 2 \<le> length (str_nat n)"
  using length_str_nat_pos [of "n div 10"] by (subst str_nat.simps) (simp add: Suc_le_eq)

lemma str_nat_inj: "str_nat n = str_nat m \<Longrightarrow> n = m"
proof (induction n arbitrary: m rule: str_nat.induct)
  case (1 n)
  show ?case
  proof (cases "n < 10")
    case small: True
    have "m < 10"
      using length_str_nat_small [OF small] length_str_nat_big [of m] "1.prems" by force
    then show ?thesis
      using small "1.prems" digit_char_inj [of n m] by (simp add: str_nat.simps)
  next
    case big: False
    have mbig: "\<not> m < 10"
      using length_str_nat_small [of m] length_str_nat_big [OF big] "1.prems" by force
    have "str_nat (n div 10) @ [digit_char (n mod 10)] =
          str_nat (m div 10) @ [digit_char (m mod 10)]"
      using "1.prems" big mbig str_nat.simps [of n] str_nat.simps [of m] by simp
    then have "str_nat (n div 10) = str_nat (m div 10)"
      and "digit_char (n mod 10) = digit_char (m mod 10)"
      by simp_all
    then have "n div 10 = m div 10" and "n mod 10 = m mod 10"
      using "1.IH" [OF big] digit_char_inj [of "n mod 10" "m mod 10"] by simp_all
    then show ?thesis
      by (metis div_mult_mod_eq)
  qed
qed

lemma speaker_label_inj: "speaker_label a = speaker_label b \<Longrightarrow> a = b"
  by (simp add: speaker_label_def str_nat_inj)

lemma other_label_inj: "other_label a = other_label b \<Longrightarrow> a = b"
  by (simp add: other_label_def str_nat_inj)

lemma speaker_label_0: "speaker_label 0 = ''speaker_0''"
  by (simp add: speaker_label_def str_nat.simps digit_char_def)

subsection \<open>The most common label\<close>

lemma argmax_from_spec:
  assumes "bi < i" and "length pre = i" and "pre ! bi = bv"
    and "\<forall>k<i. pre ! k \<le> bv" and "\<forall>k<bi. pre ! k < bv"
  shows "argmax_from xs i bi bv < length (pre @ xs) \<and>
         (\<forall>k<length (pre @ xs). (pre @ xs) ! k \<le> (pre @ xs) ! argmax_from xs i bi bv) \<and>
         (\<forall>k<argmax_from xs i bi bv. (pre @ xs) ! k < (pre @ xs) ! argmax_from xs i bi bv)"
  using assms
proof (induction xs arbitrary: i bi bv pre)
  case Nil
  then show ?case by simp
next
  case (Cons x xs)
  let ?pre = "pre @ [x]"
  have len: "length ?pre = Suc i" using Cons.prems by simp
  show ?case
  proof (cases "bv < x")
    case True
    have a: "i < Suc i" by simp
    have b: "?pre ! i = x" using Cons.prems by (simp add: nth_append)
    have c: "\<forall>k<Suc i. ?pre ! k \<le> x"
    proof (intro allI impI)
      fix k assume k: "k < Suc i"
      show "?pre ! k \<le> x"
      proof (cases "k < i")
        case less: True
        have "pre ! k \<le> bv" using Cons.prems(4) less by blast
        then have "pre ! k \<le> x" using True by linarith
        moreover have "?pre ! k = pre ! k" using less Cons.prems(2) by (simp add: nth_append)
        ultimately show ?thesis by simp
      next
        case False
        then have "k = i" using k by simp
        then show ?thesis using b by simp
      qed
    qed
    have d: "\<forall>k<i. ?pre ! k < x"
      using Cons.prems True by (auto simp: nth_append)
    show ?thesis
      using Cons.IH [OF a len b c d] True by simp
  next
    case False
    have a: "bi < Suc i" using Cons.prems by simp
    have b: "?pre ! bi = bv" using Cons.prems by (simp add: nth_append)
    have c: "\<forall>k<Suc i. ?pre ! k \<le> bv"
      using Cons.prems False by (auto simp: nth_append less_Suc_eq)
    have d: "\<forall>k<bi. ?pre ! k < bv"
      using Cons.prems by (auto simp: nth_append)
    show ?thesis
      using Cons.IH [OF a len b c d] False by simp
  qed
qed

lemma np_argmax_spec:
  assumes "np_argmax xs = Inr m"
  shows "m < length xs \<and> (\<forall>k<length xs. xs ! k \<le> xs ! m) \<and> (\<forall>k<m. xs ! k < xs ! m)"
proof (cases xs)
  case Nil
  then show ?thesis using assms by (simp add: np_argmax_def)
next
  case (Cons x rest)
  then have m: "m = argmax_from rest 1 0 x" using assms by (simp add: np_argmax_def)
  show ?thesis
    using argmax_from_spec [of 0 1 "[x]" x rest] unfolding m Cons by simp
qed

lemma np_bincount_nth:
  "v \<in> set xs \<Longrightarrow> v < length (np_bincount xs) \<and> np_bincount xs ! v = count_list xs v"
proof -
  assume v: "v \<in> set xs"
  then have "v \<le> Max (set xs)" by simp
  then have "v < Suc (Max (set xs))" by simp
  moreover have "xs \<noteq> []" using v by auto
  ultimately show ?thesis
    by (simp add: np_bincount_def del: upt_Suc)
qed

lemma np_bincount_nth_any:
  "v < length (np_bincount xs) \<Longrightarrow> np_bincount xs ! v = count_list xs v"
  by (cases "xs = []") (simp_all add: np_bincount_def del: upt_Suc)

lemma most_common_spec:
  assumes "np_argmax (np_bincount xs) = Inr m"
  shows "m \<in> set xs \<and> (\<forall>v. count_list xs v \<le> count_list xs m) \<and>
         (\<forall>v<m. count_list xs v < count_list xs m)"
proof -
  let ?b = "np_bincount xs"
  from np_argmax_spec [OF assms]
  have m: "m < length ?b" and mx: "\<forall>k<length ?b. ?b ! k \<le> ?b ! m"
    and first: "\<forall>k<m. ?b ! k < ?b ! m"
    by simp_all
  have ne: "xs \<noteq> []" using m by (auto simp: np_bincount_def)
  have cm: "?b ! m = count_list xs m" using m by (rule np_bincount_nth_any)
  have ge: "count_list xs v \<le> count_list xs m" for v
  proof (cases "v \<in> set xs")
    case True
    then show ?thesis using np_bincount_nth [OF True] mx cm by auto
  next
    case False
    then show ?thesis by simp
  qed
  obtain x where x: "x \<in> set xs" using ne by (cases xs) auto
  then have "count_list xs x \<noteq> 0" by (simp add: count_list_0_iff)
  then have "0 < count_list xs x" by simp
  then have "0 < count_list xs m" using ge [of x] by linarith
  then have mem: "m \<in> set xs" using count_list_0_iff [of xs m] by auto
  have lt: "count_list xs v < count_list xs m" if "v < m" for v
  proof -
    have "v < length ?b" using that m by simp
    then show ?thesis using first that np_bincount_nth_any [of v xs] cm by auto
  qed
  show ?thesis using mem ge lt by blast
qed

subsection \<open>Valid embeddings\<close>

lemma filter_nth_upt:
  "map (\<lambda>i. f (xs ! i)) (filter (\<lambda>i. P (xs ! i)) [0..<length xs]) = map f (filter P xs)"
proof -
  have "map f (filter P xs) = map f (filter P (map (nth xs) [0..<length xs]))"
    by (simp add: map_nth)
  also have "\<dots> = map (\<lambda>i. f (xs ! i)) (filter (\<lambda>i. P (xs ! i)) [0..<length xs])"
    by (simp add: filter_map comp_def)
  finally show ?thesis by simp
qed

lemma valid_embeddings_conv:
  "valid_embeddings embeddings = map the (filter (\<lambda>e. e \<noteq> None) embeddings)"
  unfolding valid_embeddings_def valid_indices_def by (rule filter_nth_upt)

lemma length_valid_indices:
  "length (valid_indices embeddings) = length (filter (\<lambda>e. e \<noteq> None) embeddings)"
  using filter_nth_upt [of "\<lambda>x. x" embeddings "\<lambda>e. e \<noteq> None"]
  unfolding valid_indices_def by (metis length_map)

lemma valid_embeddings_Nil_iff:
  "valid_embeddings embeddings = [] \<longleftrightarrow> (\<forall>e\<in>set embeddings. e = None)"
  by (auto simp: valid_embeddings_conv filter_empty_conv)

lemma np_vstack_single: "np_vstack [e] = Inr [e]"
  by (simp add: np_vstack_def)

lemma np_vstack_Inr: "np_vstack arrays = Inr X \<Longrightarrow> X = arrays \<and> arrays \<noteq> []"
  by (auto simp: np_vstack_def split: if_splits)

subsection \<open>The search loop\<close>

lemma search_step_result:
  assumes "fit_predict lib k X_scaled = Inr (part k)"
    and "1 < card (set (part k)) \<Longrightarrow> silhouette_score lib X_scaled (part k) = Inr (score k)"
  shows "search_step lib X_scaled (s0, n0) k =
           Inr (if 1 < card (set (part k)) \<and> s0 < score k then (score k, k) else (s0, n0))"
  using assms by (simp add: search_step_def)

lemma silhouette_search_spec:
  assumes "\<forall>k\<in>set ks. fit_predict lib k X_scaled = Inr (part k)"
    and "\<forall>k\<in>set ks. 1 < card (set (part k)) \<longrightarrow>
           silhouette_score lib X_scaled (part k) = Inr (score k)"
    and "sorted ks" and "distinct ks"
  shows "\<exists>bs bn. silhouette_search lib X_scaled (s0, n0) ks = Inr (bs, bn) \<and>
           s0 \<le> bs \<and>
           (\<forall>k\<in>set ks. 1 < card (set (part k)) \<longrightarrow> score k \<le> bs) \<and>
           ((bs, bn) = (s0, n0) \<or>
            (bn \<in> set ks \<and> 1 < card (set (part bn)) \<and> score bn = bs \<and> s0 < bs \<and>
             (\<forall>k\<in>set ks. 1 < card (set (part k)) \<and> k < bn \<longrightarrow> score k < bs)))"
  using assms
proof (induction ks arbitrary: s0 n0)
  case Nil
  then show ?case by simp
next
  case (Cons k ks)
  have step: "search_step lib X_scaled (s0, n0) k =
           Inr (if 1 < card (set (part k)) \<and> s0 < score k then (score k, k) else (s0, n0))"
    using Cons.prems(1,2) by (intro search_step_result) simp_all
  have rest: "\<forall>k\<in>set ks. fit_predict lib k X_scaled = Inr (part k)"
    "\<forall>k\<in>set ks. 1 < card (set (part k)) \<longrightarrow>
           silhouette_score lib X_scaled (part k) = Inr (score k)"
    "sorted ks" "distinct ks"
    using Cons.prems by simp_all
  have later: "\<forall>j\<in>set ks. k < j"
    using Cons.prems(3,4) by (auto simp: le_less)
  show ?case
  proof (cases "1 < card (set (part k)) \<and> s0 < score k")
    case True
    from Cons.IH [OF rest, of "score k" k]
    obtain bs bn where r: "silhouette_search lib X_scaled (score k, k) ks = Inr (bs, bn)"
      and ge: "score k \<le> bs"
      and mx: "\<forall>j\<in>set ks. 1 < card (set (part j)) \<longrightarrow> score j \<le> bs"
      and ch: "(bs, bn) = (score k, k) \<or>
            (bn \<in> set ks \<and> 1 < card (set (part bn)) \<and> score bn = bs \<and> score k < bs \<and>
             (\<forall>j\<in>set ks. 1 < card (set (part j)) \<and> j < bn \<longrightarrow> score j < bs))"
      by blast
    have res: "silhouette_search lib X_scaled (s0, n0) (k # ks) = Inr (bs, bn)"
      using step True r by auto
    have "bn \<in> set (k # ks) \<and> 1 < card (set (part bn)) \<and> score bn = bs \<and> s0 < bs \<and>
             (\<forall>j\<in>set (k # ks). 1 < card (set (part j)) \<and> j < bn \<longrightarrow> score j < bs)"
      using ch True ge later by auto
    moreover have "s0 \<le> bs" using True ge by linarith
    moreover have "\<forall>j\<in>set (k # ks). 1 < card (set (part j)) \<longrightarrow> score j \<le> bs"
      using mx ge by simp
    ultimately show ?thesis using res by blast
  next
    case False
    from Cons.IH [OF rest, of s0 n0]
    obtain bs bn where r: "silhouette_search lib X_scaled (s0, n0) ks = Inr (bs, bn)"
      and ge: "s0 \<le> bs"
      and mx: "\<forall>j\<in>set ks. 1 < card (set (part j)) \<longrightarrow> score j \<le> bs"
      and ch: "(bs, bn) = (s0, n0) \<or>
            (bn \<in> set ks \<and> 1 < card (set (part bn)) \<and> score bn = bs \<and> s0 < bs \<and>
             (\<forall>j\<in>set ks. 1 < card (set (part j)) \<and> j < bn \<longrightarrow> score j < bs))"
      by blast
    have res: "silhouette_search lib X_scaled (s0, n0) (k # ks) = Inr (bs, bn)"
      using step False r by auto
    have kle: "1 < card (set (part k)) \<longrightarrow> score k \<le> s0"
      using False by auto
    have "(bs, bn) = (s0, n0) \<or>
          (bn \<in> set (k # ks) \<and> 1 < card (set (part bn)) \<and> score bn = bs \<and> s0 < bs \<and>
             (\<forall>j\<in>set (k # ks). 1 < card (set (part j)) \<and> j < bn \<longrightarrow> score j < bs))"
      using ch kle by auto
    moreover have "\<forall>j\<in>set (k # ks). 1 < card (set (part j)) \<longrightarrow> score j \<le> bs"
      using mx ge kle by auto
    ultimately show ?thesis using res ge by blast
  qed
qed

subsection \<open>The paths of \<^verbatim>\<open>cluster_speakers\<close>\<close>

lemma cluster_speakers_path:
  assumes "2 \<le> length (filter (\<lambda>e. e \<noteq> None) embeddings)"
    and "np_vstack (valid_embeddings embeddings) = Inr X"
    and "fit_transform lib X = Inr X_scaled"
    and "linkage lib X_scaled = Inr linkage_matrix"
    and "pdist lib X_scaled = Inr distances"
    and "np_max distances = Inr max_distance"
  shows "cluster_speakers lib embeddings segments =
           (case select_n_clusters lib X_scaled (length X) max_distance of
              Inl e \<Rightarrow> Inl e
            | Inr n_clusters \<Rightarrow> final_clustering lib X_scaled embeddings n_clusters)"
proof -
  have X: "X = valid_embeddings embeddings"
    using assms(2) by (simp add: np_vstack_Inr)
  have len: "\<not> length X < 2"
    using assms(1) by (simp add: X valid_embeddings_conv)
  have ne: "embeddings \<noteq> []" "valid_embeddings embeddings \<noteq> []"
    using assms(1) len X by auto
  show ?thesis
    using ne len assms(2-6) by (simp add: cluster_speakers_def)
qed

lemma map_labels_back_spec:
  "map_labels_back embs vl mcl acc idx = Inr ls \<Longrightarrow>
     \<exists>rest. ls = acc @ rest \<and> length rest = length embs \<and>
       length (filter (\<lambda>e. e \<noteq> None) embs) \<le> length vl - idx \<and>
       map snd (filter (\<lambda>p. fst p \<noteq> None) (zip embs rest)) =
         map speaker_label (take (length (filter (\<lambda>e. e \<noteq> None) embs)) (drop idx vl)) \<and>
       (\<forall>i<length embs. embs ! i = None \<longrightarrow> rest ! i = speaker_label mcl)"
proof (induction embs arbitrary: acc idx ls)
  case Nil
  then show ?case by simp
next
  case (Cons eo embs)
  show ?case
  proof (cases eo)
    case None
    with Cons.prems
    have "map_labels_back embs vl mcl (acc @ [speaker_label mcl]) idx = Inr ls"
      by simp
    from Cons.IH [OF this]
    obtain rest where r: "ls = (acc @ [speaker_label mcl]) @ rest" "length rest = length embs"
      "length (filter (\<lambda>e. e \<noteq> None) embs) \<le> length vl - idx"
      "map snd (filter (\<lambda>p. fst p \<noteq> None) (zip embs rest)) =
         map speaker_label (take (length (filter (\<lambda>e. e \<noteq> None) embs)) (drop idx vl))"
      "\<forall>i<length embs. embs ! i = None \<longrightarrow> rest ! i = speaker_label mcl"
      by blast
    let ?rest = "speaker_label mcl # rest"
    have "\<forall>i<length (eo # embs). (eo # embs) ! i = None \<longrightarrow> ?rest ! i = speaker_label mcl"
      using r(5) by (auto simp: nth_Cons split: nat.splits)
    then show ?thesis
      using r(1-4) None by (intro exI [of _ ?rest]) simp
  next
    case (Some e)
    with Cons.prems have idx: "idx < length vl"
      by (simp split: if_splits)
    with Cons.prems Some
    have "map_labels_back embs vl mcl (acc @ [speaker_label (vl ! idx)]) (idx + 1) = Inr ls"
      by simp
    from Cons.IH [OF this]
    obtain rest where r: "ls = (acc @ [speaker_label (vl ! idx)]) @ rest"
      "length rest = length embs"
      "length (filter (\<lambda>e. e \<noteq> None) embs) \<le> length vl - (idx + 1)"
      "map snd (filter (\<lambda>p. fst p \<noteq> None) (zip embs rest)) =
         map speaker_label (take (length (filter (\<lambda>e. e \<noteq> None) embs)) (drop (idx + 1) vl))"
      "\<forall>i<length embs. embs ! i = None \<longrightarrow> rest ! i = speaker_label mcl"
      by blast
    let ?rest = "speaker_label (vl ! idx) # rest"
    have d: "drop idx vl = vl ! idx # drop (idx + 1) vl"
      using idx by (simp add: Cons_nth_drop_Suc)
    have "\<forall>i<length (eo # embs). (eo # embs) ! i = None \<longrightarrow> ?rest ! i = speaker_label mcl"
      using r(5) Some by (auto simp: nth_Cons split: nat.splits)
    then show ?thesis
      using r(1-4) Some d idx by (intro exI [of _ ?rest]) simp
  qed
qed

lemma valid_labels_zip:
  assumes "length ls = length embs"
  shows "map (\<lambda>k. ls ! k) (valid_indices embs) =
         map snd (filter (\<lambda>p. fst p \<noteq> None) (zip embs ls))"
proof -
  let ?zs = "zip embs ls"
  have len: "length ?zs = length embs" using assms by simp
  have "map snd (filter (\<lambda>p. fst p \<noteq> None) ?zs) =
        map (\<lambda>i. snd (?zs ! i)) (filter (\<lambda>i. fst (?zs ! i) \<noteq> None) [0..<length ?zs])"
    by (rule filter_nth_upt [symmetric])
  also have "filter (\<lambda>i. fst (?zs ! i) \<noteq> None) [0..<length ?zs] = valid_indices embs"
    unfolding valid_indices_def len using assms by (intro filter_cong) auto
  also have "map (\<lambda>i. snd (?zs ! i)) (valid_indices embs) = map (\<lambda>k. ls ! k) (valid_indices embs)"
    using assms by (intro map_cong) (auto simp: valid_indices_def)
  finally show ?thesis by simp
qed

lemma cluster_speakers_cases:
  assumes "cluster_speakers lib embeddings segments = Inr labels"
  shows "labels = replicate (length embeddings) ''speaker_0'' \<or>
         (\<exists>X_scaled n valid_labels most_common_label.
            fit_transform lib (valid_embeddings embeddings) = Inr X_scaled \<and>
            fit_predict lib n X_scaled = Inr valid_labels \<and>
            np_argmax (np_bincount valid_labels) = Inr most_common_label \<and>
            map_labels_back embeddings valid_labels most_common_label [] 0 = Inr labels)"
proof (cases "embeddings = [] \<or> valid_embeddings embeddings = []")
  case True
  then show ?thesis using assms by (auto simp: cluster_speakers_def split: if_splits)
next
  case False
  then obtain X where X: "np_vstack (valid_embeddings embeddings) = Inr X"
    using assms by (auto simp: cluster_speakers_def split: sum.splits)
  then have XX: "X = valid_embeddings embeddings" by (simp add: np_vstack_Inr)
  show ?thesis
    using assms False X
    by (auto simp: cluster_speakers_def final_clustering_def XX split: sum.splits if_splits)
qed

subsection \<open>The loops of \<^verbatim>\<open>cluster_speakers_personalized\<close>\<close>

lemma pending_other_simps:
  "pending_other lib u t None = False"
  "cosine lib e u = Inl err \<Longrightarrow> pending_other lib u t (Some e) = False"
  "cosine lib e u = Inr d \<Longrightarrow>
     pending_other lib u t (Some e) = (\<not> ge_threshold lib (one_minus lib d) t)"
  by (simp_all add: pending_other_def)

lemma filter_upt_Cons:
  "filter (\<lambda>k. P ((x # xs) ! k)) [0..<length (x # xs)] =
     (if P x then [0] else []) @ map Suc (filter (\<lambda>k. P (xs ! k)) [0..<length xs])"
proof -
  have "[0..<length (x # xs)] = 0 # map Suc [0..<length xs]"
    by (simp add: upt_conv_Cons map_Suc_upt del: upt_Suc)
  then show ?thesis
    by (simp add: filter_map comp_def del: upt_Suc)
qed

lemma compare_with_user_spec:
  "compare_with_user lib u t i embs st = Inr st' \<Longrightarrow>
     all_labels st' = all_labels st @
        map (\<lambda>e. if pending_other lib u t e then None else Some ''YOU'') embs \<and>
     other_embeddings st' = other_embeddings st @ map the (filter (pending_other lib u t) embs) \<and>
     other_indices st' = other_indices st @
        map (\<lambda>k. i + k) (filter (\<lambda>k. pending_other lib u t (embs ! k)) [0..<length embs]) \<and>
     (\<forall>e. Some e \<in> set embs \<longrightarrow> (\<exists>d. cosine lib e u = Inr d))"
proof (induction embs arbitrary: i st)
  case Nil
  then show ?case by simp
next
  case (Cons eo embs)
  let ?P = "pending_other lib u t"
  show ?case
  proof (cases eo)
    case None
    let ?st = "st\<lparr>all_labels := all_labels st @ [Some ''YOU'']\<rparr>"
    from Cons.prems None have "compare_with_user lib u t (i + 1) embs ?st = Inr st'"
      by simp
    from Cons.IH [OF this] show ?thesis
      unfolding filter_upt_Cons [of ?P] using None
      by (simp add: pending_other_simps comp_def)
  next
    case (Some e)
    with Cons.prems obtain d where d: "cosine lib e u = Inr d"
      by (auto split: sum.splits)
    show ?thesis
    proof (cases "ge_threshold lib (one_minus lib d) t")
      case True
      let ?st = "st\<lparr>all_labels := all_labels st @ [Some ''YOU'']\<rparr>"
      from Cons.prems Some d True have "compare_with_user lib u t (i + 1) embs ?st = Inr st'"
        by simp
      from Cons.IH [OF this] show ?thesis
        unfolding filter_upt_Cons [of ?P] using Some d True
        by (auto simp: pending_other_simps comp_def)
    next
      case False
      let ?st = "st\<lparr>all_labels := all_labels st @ [None],
                  other_embeddings := other_embeddings st @ [e],
                  other_indices := other_indices st @ [i]\<rparr>"
      from Cons.prems Some d False have "compare_with_user lib u t (i + 1) embs ?st = Inr st'"
        by simp
      from Cons.IH [OF this] show ?thesis
        unfolding filter_upt_Cons [of ?P] using Some d False
        by (auto simp: pending_other_simps comp_def)
    qed
  qed
qed

lemma compare_with_user_total:
  "\<forall>e. Some e \<in> set embs \<longrightarrow> (\<exists>d. cosine lib e u = Inr d) \<Longrightarrow>
   \<exists>st'. compare_with_user lib u t i embs st = Inr st'"
proof (induction embs arbitrary: i st)
  case Nil
  then show ?case by simp
next
  case (Cons eo embs)
  then show ?case
    by (cases eo) (auto simp: Let_def split: sum.splits)
qed

lemma compare_with_user_error:
  "\<forall>e. Some e \<in> set embs \<longrightarrow> cosine lib e u = Inl err \<Longrightarrow> \<exists>e. Some e \<in> set embs \<Longrightarrow>
   compare_with_user lib u t i embs st = Inl err"
proof (induction embs arbitrary: i st)
  case Nil
  then show ?case by simp
next
  case (Cons eo embs)
  then show ?case
    by (cases eo) auto
qed

lemma fill_other_labels_spec:
  "fill_other_labels idx ois ol labels = Inr labels' \<Longrightarrow> distinct ois \<Longrightarrow>
     length labels' = length labels \<and>
     (\<forall>k<length ois. labels' ! (ois ! k) = Some (ol ! (idx + k))) \<and>
     (\<forall>j. j \<notin> set ois \<longrightarrow> labels' ! j = labels ! j) \<and>
     length ois \<le> length ol - idx"
proof (induction ois arbitrary: idx labels)
  case Nil
  then show ?case by simp
next
  case (Cons oi ois)
  let ?labels = "labels[oi := Some (ol ! idx)]"
  from Cons.prems have ok: "idx < length ol" "oi < length labels"
    and r: "fill_other_labels (idx + 1) ois ol ?labels = Inr labels'"
    by (auto split: if_splits)
  from Cons.prems have dist: "distinct ois" "oi \<notin> set ois" by simp_all
  from Cons.IH [OF r dist(1)]
  have len: "length labels' = length ?labels"
    and at: "\<forall>k<length ois. labels' ! (ois ! k) = Some (ol ! (idx + 1 + k))"
    and out: "\<forall>j. j \<notin> set ois \<longrightarrow> labels' ! j = ?labels ! j"
    and le: "length ois \<le> length ol - (idx + 1)"
    by auto
  have "labels' ! oi = Some (ol ! idx)"
    using out dist(2) ok(2) by simp
  then have "\<forall>k<length (oi # ois). labels' ! ((oi # ois) ! k) = Some (ol ! (idx + k))"
    using at by (auto simp: nth_Cons split: nat.splits)
  moreover have "\<forall>j. j \<notin> set (oi # ois) \<longrightarrow> labels' ! j = labels ! j"
    using out by auto
  ultimately show ?case using len le ok(1) by simp
qed

lemma fill_other_labels_total:
  "idx + length ois \<le> length ol \<Longrightarrow> \<forall>oi\<in>set ois. oi < length labels \<Longrightarrow>
   \<exists>labels'. fill_other_labels idx ois ol labels = Inr labels'"
  by (induction ois arbitrary: idx labels) auto

lemma other_family_simps:
  "other_family (Some ''OTHER'')" "other_family (Some (other_label c))"
  "\<not> other_family (Some ''YOU'')" "\<not> other_family None"
  by (auto simp: other_family_def other_label_def)

lemma label_others_family:
  "label_others lib X_scaled m n = Inr ol \<Longrightarrow> \<forall>l\<in>set ol. other_family (Some l)"
  by (auto simp: label_others_def other_family_simps split: if_splits sum.splits)

lemma length_pending_indices:
  "length (pending_indices lib u t embs) = length (filter (pending_other lib u t) embs)"
  using filter_nth_upt [of "\<lambda>x. x" embs "pending_other lib u t"]
  unfolding pending_indices_def by (metis length_map)

lemma set_pending_indices:
  "set (pending_indices lib u t embs) = {i. i < length embs \<and> pending_other lib u t (embs ! i)}"
  by (auto simp: pending_indices_def)

lemma distinct_pending_indices: "distinct (pending_indices lib u t embs)"
  by (simp add: pending_indices_def)

lemma compare_with_user_initial:
  assumes "compare_with_user lib u t 0 embs
             \<lparr>all_labels = [], other_embeddings = [], other_indices = []\<rparr> = Inr st"
  shows "all_labels st = map (\<lambda>e. if pending_other lib u t e then None else Some ''YOU'') embs"
    and "other_embeddings st = map the (filter (pending_other lib u t) embs)"
    and "other_indices st = pending_indices lib u t embs"
    and "\<forall>e. Some e \<in> set embs \<longrightarrow> (\<exists>d. cosine lib e u = Inr d)"
  using compare_with_user_spec [OF assms] by (simp_all add: pending_indices_def)

lemma cluster_others_multi:
  assumes "length (other_embeddings st) > 1"
    and "np_vstack (other_embeddings st) = Inr X"
    and "fit_transform lib X = Inr X_scaled"
    and "linkage lib X_scaled = Inr linkage_matrix"
    and "pdist lib X_scaled = Inr distances"
    and "np_max distances = Inr max_distance"
  shows "cluster_others lib st =
           (case select_other_clusters lib X_scaled (length X) max_distance of
              Inl e \<Rightarrow> Inl e
            | Inr n_clusters \<Rightarrow>
                (case label_others lib X_scaled (length (other_embeddings st)) n_clusters of
                   Inl e \<Rightarrow> Inl e
                 | Inr other_labels \<Rightarrow>
                     fill_other_labels 0 (other_indices st) other_labels (all_labels st)))"
  using assms by (simp add: cluster_others_def)

lemma cluster_others_spec:
  assumes "cluster_others lib st = Inr labels"
    and "distinct (other_indices st)"
    and "length (other_embeddings st) = length (other_indices st)"
  shows "length labels = length (all_labels st) \<and>
         (\<forall>i\<in>set (other_indices st). other_family (labels ! i)) \<and>
         (\<forall>j. j \<notin> set (other_indices st) \<longrightarrow> labels ! j = all_labels st ! j) \<and>
         (length (other_indices st) = 1 \<longrightarrow> labels ! hd (other_indices st) = Some ''OTHER'')"
proof -
  consider (many) "length (other_embeddings st) > 1" | (one) "length (other_embeddings st) = 1"
    | (none) "length (other_embeddings st) = 0"
    by linarith
  then show ?thesis
  proof cases
    case many
    with assms(1) obtain X_scaled m n ol
      where lo: "label_others lib X_scaled m n = Inr ol"
        and fill: "fill_other_labels 0 (other_indices st) ol (all_labels st) = Inr labels"
      by (auto simp: cluster_others_def split: sum.splits)
    from fill_other_labels_spec [OF fill assms(2)]
    have len: "length labels = length (all_labels st)"
      and at: "\<forall>k<length (other_indices st). labels ! (other_indices st ! k) = Some (ol ! k)"
      and out: "\<forall>j. j \<notin> set (other_indices st) \<longrightarrow> labels ! j = all_labels st ! j"
      and le: "length (other_indices st) \<le> length ol"
      by auto
    have "other_family (labels ! i)" if "i \<in> set (other_indices st)" for i
    proof -
      from that obtain k where k: "k < length (other_indices st)" "other_indices st ! k = i"
        by (auto simp: in_set_conv_nth)
      then have "ol ! k \<in> set ol" using le by simp
      then show ?thesis using at k label_others_family [OF lo] by auto
    qed
    then show ?thesis using len out many assms(3) by auto
  next
    case one
    then obtain i0 where oi: "other_indices st = [i0]"
      using assms(3) by (cases "other_indices st") auto
    with assms(1) one have "i0 < length (all_labels st)"
      and "labels = (all_labels st)[i0 := Some ''OTHER'']"
      by (auto simp: cluster_others_def split: if_splits)
    then show ?thesis using oi by (auto simp: other_family_simps)
  next
    case none
    then show ?thesis using assms(1,3) by (auto simp: cluster_others_def)
  qed
qed

lemma personalized_spec:
  assumes "cluster_speakers_personalized lib embs u t = Inr labels"
  shows "length labels = length embs"
    and "\<forall>i<length embs. if pending_other lib u t (embs ! i) then other_family (labels ! i)
           else labels ! i = Some ''YOU''"
    and "length (pending_indices lib u t embs) = 1 \<longrightarrow>
           labels ! hd (pending_indices lib u t embs) = Some ''OTHER''"
    and "valid_embeddings embs \<noteq> [] \<longrightarrow>
           (\<forall>e. Some e \<in> set embs \<longrightarrow> (\<exists>d. cosine lib e u = Inr d))"
proof -
  let ?P = "pending_other lib u t"
  have "length labels = length embs \<and>
    (\<forall>i<length embs. if ?P (embs ! i) then other_family (labels ! i) else labels ! i = Some ''YOU'') \<and>
    (length (pending_indices lib u t embs) = 1 \<longrightarrow>
           labels ! hd (pending_indices lib u t embs) = Some ''OTHER'') \<and>
    (valid_embeddings embs \<noteq> [] \<longrightarrow> (\<forall>e. Some e \<in> set embs \<longrightarrow> (\<exists>d. cosine lib e u = Inr d)))"
  proof (cases "embs = [] \<or> valid_embeddings embs = []")
    case True
    then have allnone: "\<forall>e\<in>set embs. e = None"
      by (auto simp: valid_embeddings_Nil_iff)
    then have "\<forall>i<length embs. embs ! i = None"
      by simp
    then have np: "\<forall>i<length embs. \<not> ?P (embs ! i)"
      by (simp add: pending_other_def)
    then have "pending_indices lib u t embs = []"
      by (auto simp: pending_indices_def filter_empty_conv)
    moreover have "labels = replicate (length embs) (Some ''YOU'')"
      using True assms by (auto simp: cluster_speakers_personalized_def split: if_splits)
    ultimately show ?thesis using np True by auto
  next
    case False
    with assms obtain st where
      cmp: "compare_with_user lib u t 0 embs
             \<lparr>all_labels = [], other_embeddings = [], other_indices = []\<rparr> = Inr st"
      and co: "cluster_others lib st = Inr labels"
      by (auto simp: cluster_speakers_personalized_def split: sum.splits)
    note init = compare_with_user_initial [OF cmp]
    have dist: "distinct (other_indices st)"
      by (simp add: init(3) distinct_pending_indices)
    have leq: "length (other_embeddings st) = length (other_indices st)"
      by (simp add: init(2,3) length_pending_indices)
    from cluster_others_spec [OF co dist leq]
    have len: "length labels = length (all_labels st)"
      and fam: "\<forall>i\<in>set (other_indices st). other_family (labels ! i)"
      and out: "\<forall>j. j \<notin> set (other_indices st) \<longrightarrow> labels ! j = all_labels st ! j"
      and one: "length (other_indices st) = 1 \<longrightarrow> labels ! hd (other_indices st) = Some ''OTHER''"
      by auto
    have "if ?P (embs ! i) then other_family (labels ! i) else labels ! i = Some ''YOU''"
      if "i < length embs" for i
    proof (cases "?P (embs ! i)")
      case True
      then have "i \<in> set (other_indices st)"
        using that by (simp add: init(3) set_pending_indices)
      then show ?thesis using fam True by simp
    next
      case False
      then have "i \<notin> set (other_indices st)"
        by (simp add: init(3) set_pending_indices)
      then have "labels ! i = all_labels st ! i" using out by simp
      then show ?thesis using False that by (simp add: init(1))
    qed
    then show ?thesis
      using len one init by simp
  qed
  then show "length labels = length embs"
    and "\<forall>i<length embs. if pending_other lib u t (embs ! i) then other_family (labels ! i)
           else labels ! i = Some ''YOU''"
    and "length (pending_indices lib u t embs) = 1 \<longrightarrow>
           labels ! hd (pending_indices lib u t embs) = Some ''OTHER''"
    and "valid_embeddings embs \<noteq> [] \<longrightarrow>
           (\<forall>e. Some e \<in> set embs \<longrightarrow> (\<exists>d. cosine lib e u = Inr d))"
    by simp_all
qed

lemma length_filter_pointwise:
  assumes "length xs = length ys" and "\<forall>i<length xs. P (xs ! i) = Q (ys ! i)"
  shows "length (filter P xs) = length (filter Q ys)"
proof -
  have "length (filter P xs) = length (filter (\<lambda>i. P (xs ! i)) [0..<length xs])"
    using filter_nth_upt [of "\<lambda>x. x" xs P] by (metis length_map)
  also have "filter (\<lambda>i. P (xs ! i)) [0..<length xs] = filter (\<lambda>i. Q (ys ! i)) [0..<length ys]"
    using assms by (intro filter_cong) auto
  also have "length \<dots> = length (filter Q ys)"
    using filter_nth_upt [of "\<lambda>x. x" ys Q] by (metis length_map)
  finally show ?thesis .
qed

lemma length_filter_mono:
  "(\<And>x. x \<in> set xs \<Longrightarrow> P x \<Longrightarrow> Q x) \<Longrightarrow> length (filter P xs) \<le> length (filter Q xs)"
  by (induction xs) auto

lemma pending_other_mono:
  "t1 \<le> t2 \<Longrightarrow> pending_other lib u t1 e \<Longrightarrow> pending_other lib u t2 e"
  by (auto simp: pending_other_def dest: ge_threshold_mono split: option.splits sum.splits)

lemma other_count:
  assumes "cluster_speakers_personalized lib embs u t = Inr labels"
  shows "length (filter other_family labels) = length (filter (pending_other lib u t) embs)"
proof (rule length_filter_pointwise)
  show "length labels = length embs"
    by (rule personalized_spec(1) [OF assms])
  show "\<forall>i<length labels. other_family (labels ! i) = pending_other lib u t (embs ! i)"
  proof (intro allI impI)
    fix i assume "i < length labels"
    then have "if pending_other lib u t (embs ! i) then other_family (labels ! i)
        else labels ! i = Some ''YOU''"
      using personalized_spec(1,2) [OF assms] by simp
    then show "other_family (labels ! i) = pending_other lib u t (embs ! i)"
      by (cases "pending_other lib u t (embs ! i)") (simp_all add: other_family_simps)
  qed
qed




subsection \<open>When the operations return\<close>

lemma never_raisesD:
  assumes "never_raises lib"
  shows "\<exists>X_scaled. fit_transform lib X = Inr X_scaled"
    and "\<exists>linkage_matrix. linkage lib X = Inr linkage_matrix"
    and "\<exists>distances. pdist lib X = Inr distances \<and> (2 \<le> length X \<longrightarrow> distances \<noteq> [])"
    and "\<exists>labels. fit_predict lib n X = Inr labels"
    and "\<exists>score. silhouette_score lib X labels = Inr score"
    and "length u = length v \<Longrightarrow> \<exists>d. cosine lib u v = Inr d"
  using assms unfolding never_raises_def by blast+

lemma search_step_total:
  assumes "never_raises lib"
  shows "\<exists>r. search_step lib X_scaled best n = Inr r"
proof -
  obtain labels where l: "fit_predict lib n X_scaled = Inr labels"
    using never_raisesD(4) [OF assms] by blast
  obtain score where s: "silhouette_score lib X_scaled labels = Inr score"
    using never_raisesD(5) [OF assms] by blast
  show ?thesis by (simp add: search_step_def l s)
qed

lemma silhouette_search_total:
  assumes "never_raises lib"
  shows "\<exists>r. silhouette_search lib X_scaled best ks = Inr r"
proof (induction ks arbitrary: best)
  case Nil
  show ?case by simp
next
  case (Cons k ks)
  obtain r where r: "search_step lib X_scaled best k = Inr r"
    using search_step_total [OF assms] by blast
  show ?case using Cons [of r] by (simp add: r)
qed

lemma select_n_clusters_total:
  assumes "never_raises lib"
  shows "\<exists>n. select_n_clusters lib X_scaled m d = Inr n"
proof -
  obtain r where "silhouette_search lib X_scaled (- 1, 2) [2..<min 10 (m - 1) + 1] = Inr r"
    using silhouette_search_total [OF assms] by blast
  then show ?thesis
    unfolding select_n_clusters_def by (cases r) (simp del: upt_Suc)
qed

lemma select_other_clusters_total:
  assumes "never_raises lib"
  shows "\<exists>n. select_other_clusters lib X_scaled m d = Inr n"
proof -
  obtain r where "silhouette_search lib X_scaled (- 1, 1) [2..<min 5 (m - 1) + 1] = Inr r"
    using silhouette_search_total [OF assms] by blast
  then show ?thesis
    unfolding select_other_clusters_def by (cases r) (simp del: upt_Suc)
qed

lemma map_labels_back_total:
  "length (filter (\<lambda>e. e \<noteq> None) embs) \<le> length vl - idx \<Longrightarrow>
   \<exists>ls. map_labels_back embs vl mcl acc idx = Inr ls"
proof (induction embs arbitrary: acc idx)
  case Nil
  show ?case by simp
next
  case (Cons eo embs)
  show ?case
  proof (cases eo)
    case None
    then show ?thesis using Cons by simp
  next
    case (Some e)
    then have "idx < length vl" "length (filter (\<lambda>e. e \<noteq> None) embs) \<le> length vl - (idx + 1)"
      using Cons.prems by simp_all
    then show ?thesis using Cons.IH [of "idx + 1"] Some by simp
  qed
qed

lemma np_vstack_uniform:
  assumes "arrays \<noteq> []" and "\<forall>a\<in>set arrays. length a = d"
  shows "np_vstack arrays = Inr arrays"
proof -
  have "hd arrays \<in> set arrays" using assms(1) by simp
  then have "length (hd arrays) = d" using assms(2) by blast
  then have la: "list_all (\<lambda>a. length a = length (hd arrays)) arrays"
    unfolding list_all_iff using assms(2) by blast
  show ?thesis
    unfolding np_vstack_def by (subst if_not_P [OF assms(1)], subst if_P [OF la], rule refl)
qed

lemma np_argmax_total: "xs \<noteq> [] \<Longrightarrow> \<exists>m. np_argmax xs = Inr m"
  by (cases xs) (simp_all add: np_argmax_def)

lemma np_bincount_nonempty: "xs \<noteq> [] \<Longrightarrow> np_bincount xs \<noteq> []"
  by (simp add: np_bincount_def del: upt_Suc)

lemma final_clustering_total:
  assumes nr: "never_raises lib" and kr: "keeps_rows lib"
    and len: "length X_scaled = length (filter (\<lambda>e. e \<noteq> None) embeddings)"
    and pos: "2 \<le> length X_scaled"
  shows "\<exists>labels. final_clustering lib X_scaled embeddings n = Inr labels"
proof (cases "n = 1")
  case True
  then show ?thesis by (simp add: final_clustering_def)
next
  case False
  obtain vl where vl: "fit_predict lib n X_scaled = Inr vl"
    using never_raisesD(4) [OF nr] by blast
  then have lvl: "length vl = length X_scaled"
    using kr by (auto simp: keeps_rows_def)
  then have "vl \<noteq> []" using pos by auto
  then obtain mcl where mcl: "np_argmax (np_bincount vl) = Inr mcl"
    using np_argmax_total [OF np_bincount_nonempty] by blast
  have "length (filter (\<lambda>e. e \<noteq> None) embeddings) \<le> length vl - 0"
    using lvl len by simp
  from map_labels_back_total [OF this]
  obtain ls where "map_labels_back embeddings vl mcl [] 0 = Inr ls" by blast
  then show ?thesis using False vl mcl by (simp add: final_clustering_def)
qed

lemma cluster_speakers_total:
  assumes nr: "never_raises lib" and kr: "keeps_rows lib"
    and dim: "\<forall>e. Some e \<in> set embeddings \<longrightarrow> length e = d"
  shows "\<exists>labels. cluster_speakers lib embeddings segments = Inr labels"
proof (cases "embeddings = [] \<or> valid_embeddings embeddings = [] \<or>
              length (valid_embeddings embeddings) < 2")
  case True
  then consider "embeddings = []" | "embeddings \<noteq> []" "valid_embeddings embeddings = []"
    | "embeddings \<noteq> []" "length (valid_embeddings embeddings) = 1"
    by (cases "valid_embeddings embeddings") (auto simp: less_Suc_eq numeral_2_eq_2)
  then show ?thesis
  proof cases
    case 1
    then show ?thesis by (simp add: cluster_speakers_def)
  next
    case 2
    then show ?thesis by (simp add: cluster_speakers_def)
  next
    case 3
    then obtain e where "valid_embeddings embeddings = [e]"
      by (cases "valid_embeddings embeddings") auto
    then show ?thesis using 3 by (simp add: cluster_speakers_def np_vstack_single)
  qed
next
  case False
  let ?X = "valid_embeddings embeddings"
  have "\<forall>a\<in>set ?X. length a = d"
    using dim by (auto simp: valid_embeddings_conv)
  then have vs: "np_vstack ?X = Inr ?X"
    using False by (intro np_vstack_uniform) auto
  obtain X_scaled where ft: "fit_transform lib ?X = Inr X_scaled"
    using never_raisesD(1) [OF nr] by blast
  then have lx: "length X_scaled = length ?X"
    using kr by (auto simp: keeps_rows_def)
  obtain lm where lk: "linkage lib X_scaled = Inr lm"
    using never_raisesD(2) [OF nr] by blast
  obtain ds where pd: "pdist lib X_scaled = Inr ds" and dne: "ds \<noteq> []"
    using never_raisesD(3) [OF nr, of X_scaled] lx False by auto
  then obtain md where mx: "np_max ds = Inr md"
    by (simp add: np_max_def)
  obtain n where sel: "select_n_clusters lib X_scaled (length ?X) md = Inr n"
    using select_n_clusters_total [OF nr] by blast
  have "length X_scaled = length (filter (\<lambda>e. e \<noteq> None) embeddings)"
    using lx by (simp add: valid_embeddings_conv)
  moreover have "2 \<le> length X_scaled" using lx False by simp
  ultimately obtain labels where "final_clustering lib X_scaled embeddings n = Inr labels"
    using final_clustering_total [OF nr kr] by blast
  then show ?thesis
    using False vs ft lk pd mx sel by (simp add: cluster_speakers_def)
qed


lemma label_others_total:
  assumes nr: "never_raises lib" and kr: "keeps_rows lib"
  shows "\<exists>ol. label_others lib X_scaled (length X_scaled) n = Inr ol \<and>
              length ol = length X_scaled"
proof (cases "n = 1")
  case True
  then show ?thesis by (simp add: label_others_def)
next
  case False
  obtain ids where ids: "fit_predict lib n X_scaled = Inr ids"
    using never_raisesD(4) [OF nr] by blast
  then have "length ids = length X_scaled"
    using kr by (auto simp: keeps_rows_def)
  then show ?thesis using False ids by (simp add: label_others_def)
qed

lemma cluster_others_total:
  assumes nr: "never_raises lib" and kr: "keeps_rows lib"
    and leq: "length (other_embeddings st) = length (other_indices st)"
    and inb: "\<forall>oi\<in>set (other_indices st). oi < length (all_labels st)"
    and dim: "\<forall>a\<in>set (other_embeddings st). length a = d"
  shows "\<exists>labels. cluster_others lib st = Inr labels"
proof -
  consider (many) "length (other_embeddings st) > 1" | (one) "length (other_embeddings st) = 1"
    | (none) "length (other_embeddings st) = 0"
    by linarith
  then show ?thesis
  proof cases
    case many
    let ?X = "other_embeddings st"
    have "?X \<noteq> []" using many by auto
    then have vs: "np_vstack ?X = Inr ?X"
      using dim by (rule np_vstack_uniform)
    obtain X_scaled where ft: "fit_transform lib ?X = Inr X_scaled"
      using never_raisesD(1) [OF nr] by blast
    then have lx: "length X_scaled = length ?X"
      using kr by (auto simp: keeps_rows_def)
    obtain lm where lk: "linkage lib X_scaled = Inr lm"
      using never_raisesD(2) [OF nr] by blast
    obtain ds where pd: "pdist lib X_scaled = Inr ds" and dne: "ds \<noteq> []"
      using never_raisesD(3) [OF nr, of X_scaled] lx many by auto
    then obtain md where mx: "np_max ds = Inr md"
      by (simp add: np_max_def)
    obtain n where sel: "select_other_clusters lib X_scaled (length ?X) md = Inr n"
      using select_other_clusters_total [OF nr] by blast
    obtain ol where lo: "label_others lib X_scaled (length ?X) n = Inr ol"
      and lol: "length ol = length ?X"
      using label_others_total [OF nr kr, of X_scaled n] lx by auto
    have "0 + length (other_indices st) \<le> length ol" using lol leq by simp
    from fill_other_labels_total [OF this inb]
    obtain labels where "fill_other_labels 0 (other_indices st) ol (all_labels st) = Inr labels"
      by blast
    then show ?thesis
      using cluster_others_multi [OF many vs ft lk pd mx] sel lo by simp
  next
    case one
    then obtain i0 where oi: "other_indices st = [i0]"
      using leq by (cases "other_indices st") auto
    then have "i0 < length (all_labels st)" using inb by simp
    then show ?thesis using one oi by (simp add: cluster_others_def)
  next
    case none
    then show ?thesis by (simp add: cluster_others_def)
  qed
qed

lemma personalized_total:
  assumes nr: "never_raises lib" and kr: "keeps_rows lib"
    and dim: "\<forall>e. Some e \<in> set embeddings \<longrightarrow> length e = length u"
  shows "\<exists>labels. cluster_speakers_personalized lib embeddings u t = Inr labels"
proof (cases "embeddings = [] \<or> valid_embeddings embeddings = []")
  case True
  then show ?thesis by (auto simp: cluster_speakers_personalized_def)
next
  case False
  have cos: "\<forall>e. Some e \<in> set embeddings \<longrightarrow> (\<exists>d. cosine lib e u = Inr d)"
    using never_raisesD(6) [OF nr] dim by blast
  from compare_with_user_total [OF cos]
  obtain st where cmp: "compare_with_user lib u t 0 embeddings
             \<lparr>all_labels = [], other_embeddings = [], other_indices = []\<rparr> = Inr st"
    by blast
  note init = compare_with_user_initial [OF cmp]
  have leq: "length (other_embeddings st) = length (other_indices st)"
    by (simp add: init(2,3) length_pending_indices)
  have inb: "\<forall>oi\<in>set (other_indices st). oi < length (all_labels st)"
    by (simp add: init(1,3) set_pending_indices)
  have "\<forall>a\<in>set (other_embeddings st). length a = length u"
  proof
    fix a assume "a \<in> set (other_embeddings st)"
    then obtain eo where eo: "eo \<in> set embeddings" "pending_other lib u t eo" "a = the eo"
      unfolding init(2) by auto
    obtain e where "eo = Some e"
      using eo(2) by (cases eo) (simp_all add: pending_other_def)
    then show "length a = length u" using eo dim by simp
  qed
  from cluster_others_total [OF nr kr leq inb this]
  obtain labels where "cluster_others lib st = Inr labels" by blast
  then show ?thesis
    using False cmp by (simp add: cluster_speakers_personalized_def)
qed

lemma map_labels_back_positions:
  assumes "map_labels_back embeddings vl mcl [] 0 = Inr labels"
  shows "length labels = length embeddings"
    and "\<forall>k<length (valid_indices embeddings).
           labels ! (valid_indices embeddings ! k) = speaker_label (vl ! k)"
    and "\<forall>i<length embeddings. embeddings ! i = None \<longrightarrow> labels ! i = speaker_label mcl"
proof -
  let ?nv = "length (filter (\<lambda>e. e \<noteq> None) embeddings)"
  from map_labels_back_spec [OF assms]
  have len: "length labels = length embeddings"
    and le: "?nv \<le> length vl"
    and z: "map snd (filter (\<lambda>p. fst p \<noteq> None) (zip embeddings labels)) =
                map speaker_label (take ?nv vl)"
    and none: "\<forall>i<length embeddings. embeddings ! i = None \<longrightarrow> labels ! i = speaker_label mcl"
    by auto
  have V: "map (\<lambda>k. labels ! k) (valid_indices embeddings) = map speaker_label (take ?nv vl)"
    using valid_labels_zip [OF len] z by simp
  have "labels ! (valid_indices embeddings ! k) = speaker_label (vl ! k)"
    if "k < length (valid_indices embeddings)" for k
  proof -
    have k: "k < ?nv" using that by (simp add: length_valid_indices)
    have "map (\<lambda>k. labels ! k) (valid_indices embeddings) ! k =
          labels ! (valid_indices embeddings ! k)"
      using that by simp
    moreover have "map speaker_label (take ?nv vl) ! k = speaker_label (vl ! k)"
      using k le by simp
    ultimately show ?thesis using V by simp
  qed
  then show "\<forall>k<length (valid_indices embeddings).
           labels ! (valid_indices embeddings ! k) = speaker_label (vl ! k)"
    by blast
  show "length labels = length embeddings" by (rule len)
  show "\<forall>i<length embeddings. embeddings ! i = None \<longrightarrow> labels ! i = speaker_label mcl"
    by (rule none)
qed

subsection \<open>Exceptions of the comparison loop\<close>

lemma compare_with_user_raises:
  "Some e \<in> set embs \<Longrightarrow> cosine lib e u = Inl err \<Longrightarrow>
   \<exists>err'. compare_with_user lib u t i embs st = Inl err'"
proof (induction embs arbitrary: i st)
  case Nil
  then show ?case by simp
next
  case (Cons eo embs)
  show ?case
  proof (cases eo)
    case None
    then have "Some e \<in> set embs" using Cons.prems(1) by simp
    from Cons.IH [OF this Cons.prems(2)] show ?thesis
      using None by simp
  next
    case (Some e')
    show ?thesis
    proof (cases "cosine lib e' u")
      case (Inl err')
      then show ?thesis using Some by simp
    next
      case (Inr d)
      then have "e' \<noteq> e" using Cons.prems(2) by auto
      then have "Some e \<in> set embs" using Cons.prems(1) Some by simp
      from Cons.IH [OF this Cons.prems(2)] show ?thesis
        using Some Inr by (simp add: Let_def)
    qed
  qed
qed

lemma personalized_raises:
  assumes "compare_with_user lib u t 0 embs
             \<lparr>all_labels = [], other_embeddings = [], other_indices = []\<rparr> = Inl err"
    and "Some e \<in> set embs"
  shows "cluster_speakers_personalized lib embs u t = Inl err"
proof -
  have ne: "embs \<noteq> []" using assms(2) by auto
  have "\<not> (\<forall>e\<in>set embs. e = None)" using assms(2) by auto
  then have v: "valid_embeddings embs \<noteq> []"
    by (simp add: valid_embeddings_Nil_iff)
  show ?thesis
    using ne v assms(1) by (simp add: cluster_speakers_personalized_def)
qed

subsection \<open>A sample of the \<^verbatim>\<open>float32\<close> comparison\<close>







subsection \<open>The labels of a run\<close>

lemma fst_return_run [simp]: "fst (return_run x w) = Inr x"
  by (simp add: return_run_def)

lemma fst_lift_run [simp]: "fst (lift_run r w) = r"
  by (simp add: lift_run_def)

lemma fst_bind_run:
  "fst (bind_run m f w) =
     (case fst (m w) of Inl e \<Rightarrow> Inl e | Inr x \<Rightarrow> fst (f x (snd (m w))))"
  by (cases "m w") (auto simp: bind_run_def split: sum.splits)

lemma fst_print_run [simp]: "fst (print_run rt m w) = Inr ()"
  by (simp add: print_run_def)

lemma results_ofD:
  assumes "results_of rt lib"
  shows "fst (run_fit_transform rt X w) = fit_transform lib X"
    and "fst (run_linkage rt X w) = linkage lib X"
    and "fst (run_pdist rt X w) = pdist lib X"
    and "fst (run_fit_predict rt n X w) = fit_predict lib n X"
    and "fst (run_silhouette_score rt X labels w) = silhouette_score lib X labels"
  using assms by (simp_all add: results_of_def)

lemma search_step_run_labels:
  assumes "results_of rt lib"
  shows "fst (search_step_run rt X_scaled best n w) = search_step lib X_scaled best n"
  by (simp add: search_step_run_def search_step_def fst_bind_run results_ofD [OF assms]
      split: sum.splits)

lemma silhouette_search_run_labels:
  assumes "results_of rt lib"
  shows "fst (silhouette_search_run rt X_scaled best ns w) = silhouette_search lib X_scaled best ns"
proof (induction ns arbitrary: best w)
  case Nil
  show ?case by simp
next
  case (Cons n ns)
  show ?case
    by (simp add: fst_bind_run search_step_run_labels [OF assms] Cons.IH split: sum.splits)
qed

lemma select_n_clusters_run_labels:
  assumes "results_of rt lib"
  shows "fst (select_n_clusters_run rt X_scaled len_X max_distance w) =
         select_n_clusters lib X_scaled len_X max_distance"
  by (simp add: select_n_clusters_run_def select_n_clusters_def fst_bind_run
      silhouette_search_run_labels [OF assms] split: sum.splits prod.splits)

lemma final_clustering_run_labels:
  assumes "results_of rt lib"
  shows "fst (final_clustering_run rt X_scaled embeddings n_clusters w) =
         final_clustering lib X_scaled embeddings n_clusters"
  by (simp add: final_clustering_run_def final_clustering_def fst_bind_run
      results_ofD [OF assms] split: sum.splits)

lemma cluster_speakers_run_labels:
  assumes "results_of rt lib"
  shows "fst (cluster_speakers_run rt embeddings segments w) =
         cluster_speakers lib embeddings segments'"
  by (simp add: cluster_speakers_run_def cluster_speakers_def fst_bind_run
      results_ofD [OF assms] select_n_clusters_run_labels [OF assms]
      final_clustering_run_labels [OF assms] split: sum.splits)

lemma results_of_sample: "results_of sample_runtime sample_lib"
  by (simp add: results_of_def sample_runtime_def split: prod.splits)

section \<open>The claims\<close>

text \<open>
  Claim C1 (index alignment). Every list of labels that \<^verbatim>\<open>cluster_speakers\<close> or
  \<^verbatim>\<open>cluster_speakers_personalized\<close> returns has the length of the embedding list, and
  the empty list gives the empty list. The order is kept: in the unsupervised result,
  either every label is \<^verbatim>\<open>"speaker_0"\<close>, or the label of the \<open>k\<close>-th row of the
  clustered matrix stands at the index of the \<open>k\<close>-th valid embedding and one common
  label at the indices without embedding; the personalized result has no placeholder
  left (its label at each index is determined by the embedding at that index, claim C6).
  Both operations return a list whenever no library call raises, the library keeps the
  number of rows, and the embeddings have the length of the user embedding.
\<close>

theorem index_alignment:
  "(\<forall>labels. cluster_speakers lib embeddings segments = Inr labels \<longrightarrow>
      length labels = length embeddings \<and>
      (labels = replicate (length embeddings) ''speaker_0'' \<or>
       (\<exists>X_scaled n valid_labels most_common_label.
          fit_transform lib (valid_embeddings embeddings) = Inr X_scaled \<and>
          fit_predict lib n X_scaled = Inr valid_labels \<and>
          (\<forall>k<length (valid_indices embeddings).
             labels ! (valid_indices embeddings ! k) = speaker_label (valid_labels ! k)) \<and>
          (\<forall>i<length embeddings. embeddings ! i = None \<longrightarrow>
             labels ! i = speaker_label most_common_label)))) \<and>
   (\<forall>labels. cluster_speakers_personalized lib embeddings user_embedding t = Inr labels \<longrightarrow>
      length labels = length embeddings \<and> None \<notin> set labels) \<and>
   cluster_speakers lib [] segments = Inr [] \<and>
   cluster_speakers_personalized lib [] user_embedding t = Inr [] \<and>
   (never_raises lib \<and> keeps_rows lib \<and>
    (\<forall>e. Some e \<in> set embeddings \<longrightarrow> length e = length user_embedding) \<longrightarrow>
      (\<exists>labels. cluster_speakers lib embeddings segments = Inr labels) \<and>
      (\<exists>labels. cluster_speakers_personalized lib embeddings user_embedding t = Inr labels))"
proof (intro conjI allI impI)
  fix labels
  assume r: "cluster_speakers lib embeddings segments = Inr labels"
  from cluster_speakers_cases [OF r]
  have c: "labels = replicate (length embeddings) ''speaker_0'' \<or>
       (\<exists>X_scaled n valid_labels most_common_label.
          fit_transform lib (valid_embeddings embeddings) = Inr X_scaled \<and>
          fit_predict lib n X_scaled = Inr valid_labels \<and>
          length labels = length embeddings \<and>
          (\<forall>k<length (valid_indices embeddings).
             labels ! (valid_indices embeddings ! k) = speaker_label (valid_labels ! k)) \<and>
          (\<forall>i<length embeddings. embeddings ! i = None \<longrightarrow>
             labels ! i = speaker_label most_common_label))"
  proof (elim disjE exE conjE)
    assume "labels = replicate (length embeddings) ''speaker_0''"
    then show ?thesis by blast
  next
    fix X_scaled n vl mcl
    assume ft: "fit_transform lib (valid_embeddings embeddings) = Inr X_scaled"
      and fp: "fit_predict lib n X_scaled = Inr vl"
      and ml: "map_labels_back embeddings vl mcl [] 0 = Inr labels"
    note pos = map_labels_back_positions [OF ml]
    show ?thesis
      using ft fp pos by blast
  qed
  then show "length labels = length embeddings"
    by auto
  from c show "labels = replicate (length embeddings) ''speaker_0'' \<or>
       (\<exists>X_scaled n valid_labels most_common_label.
          fit_transform lib (valid_embeddings embeddings) = Inr X_scaled \<and>
          fit_predict lib n X_scaled = Inr valid_labels \<and>
          (\<forall>k<length (valid_indices embeddings).
             labels ! (valid_indices embeddings ! k) = speaker_label (valid_labels ! k)) \<and>
          (\<forall>i<length embeddings. embeddings ! i = None \<longrightarrow>
             labels ! i = speaker_label most_common_label))"
    by blast
next
  fix labels
  assume r: "cluster_speakers_personalized lib embeddings user_embedding t = Inr labels"
  note spec = personalized_spec [OF r]
  show "length labels = length embeddings" by (rule spec(1))
  show "None \<notin> set labels"
  proof
    assume "None \<in> set labels"
    then obtain i where i: "i < length labels" "labels ! i = None"
      by (auto simp: in_set_conv_nth)
    have "i < length embeddings" using i(1) spec(1) by simp
    then have "if pending_other lib user_embedding t (embeddings ! i)
               then other_family (labels ! i) else labels ! i = Some ''YOU''"
      using spec(2) by blast
    then show False
      unfolding i(2) by (cases "pending_other lib user_embedding t (embeddings ! i)")
        (simp_all add: other_family_simps)
  qed
next
  show "cluster_speakers lib [] segments = Inr []"
    by (simp add: cluster_speakers_def)
  show "cluster_speakers_personalized lib [] user_embedding t = Inr []"
    by (simp add: cluster_speakers_personalized_def)
next
  assume a: "never_raises lib \<and> keeps_rows lib \<and>
    (\<forall>e. Some e \<in> set embeddings \<longrightarrow> length e = length user_embedding)"
  then show "\<exists>labels. cluster_speakers lib embeddings segments = Inr labels"
    using cluster_speakers_total [of lib embeddings "length user_embedding" segments] by blast
  from a show "\<exists>labels. cluster_speakers_personalized lib embeddings user_embedding t = Inr labels"
    using personalized_total [of lib embeddings user_embedding t] by blast
qed

theorem index_alignment_witness:
  "cluster_speakers sample_lib [Some [0], Some [1], None, Some [40], Some [41], Some [80]]
     ([] :: unit list) =
   Inr [''speaker_0'', ''speaker_1'', ''speaker_0'', ''speaker_2'', ''speaker_0'', ''speaker_1''] \<and>
   cluster_speakers_personalized sample_lib [Some [1, 0], None, Some [0, 1]] [1, 0] (45 / 100) =
   Inr [Some ''YOU'', Some ''YOU'', Some ''OTHER''] \<and>
   length [''speaker_0'', ''speaker_1'', ''speaker_0'', ''speaker_2'', ''speaker_0'', ''speaker_1''] =
   length [Some [0], Some [1], None, Some [40], Some [41], Some [80 :: real]] \<and>
   never_raises sample_lib \<and> keeps_rows sample_lib"
proof -
  let ?embs = "[Some [0], Some [1], None, Some [40], Some [41], Some [80 :: real]]"
  have rr: "length (round_robin n k Y) = length Y" for n k and Y :: matrix
    by (induction Y arbitrary: k) simp_all
  have pw: "2 \<le> length Y \<Longrightarrow> pairwise manhattan Y \<noteq> []" for Y
    by (cases Y; cases "tl Y") auto
  have h1: "never_raises sample_lib"
    by (auto simp: never_raises_def sample_lib_def pw)
  have h2: "keeps_rows sample_lib"
    by (auto simp: keeps_rows_def sample_lib_def rr)
  have h3: "\<forall>e. Some e \<in> set ?embs \<longrightarrow> length e = length [1 :: real]"
    by auto
  from index_alignment [of sample_lib ?embs "[] :: unit list" "[1]" "45 / 100"] h1 h2 h3
  have ret: "\<exists>labels. cluster_speakers sample_lib ?embs ([] :: unit list) = Inr labels"
    by blast
  have e1: "cluster_speakers sample_lib ?embs ([] :: unit list) =
    Inr [''speaker_0'', ''speaker_1'', ''speaker_0'', ''speaker_2'', ''speaker_0'', ''speaker_1'']"
    by code_simp
  have e2: "cluster_speakers_personalized sample_lib [Some [1, 0], None, Some [0, 1]] [1, 0]
      (45 / 100) = Inr [Some ''YOU'', Some ''YOU'', Some ''OTHER'']"
    by code_simp
  from index_alignment [of sample_lib ?embs "[] :: unit list" "[1]" "45 / 100"] e1
  have "length [''speaker_0'', ''speaker_1'', ''speaker_0'', ''speaker_2'', ''speaker_0'', ''speaker_1''] =
        length ?embs"
    by blast
  then show ?thesis using e1 e2 h1 h2 by blast
qed

text \<open>
  Claim C2 (precondition rejection), as stated: \<^verbatim>\<open>cluster_speakers_personalized\<close> rejects
  every user embedding whose length differs from the embedding dimension. It does not:
  the function has no dimension check, and with a user embedding of one component it
  returns \<^verbatim>\<open>"YOU"\<close> for two missing embeddings and the empty list for no embeddings.
\<close>

theorem reference_dimension_counterexample:
  "length [1 :: real] \<noteq> 512 \<and>
   cluster_speakers_personalized sample_lib [None, None] [1] (45 / 100) =
     Inr [Some ''YOU'', Some ''YOU''] \<and>
   cluster_speakers_personalized sample_lib [] [1] (45 / 100) = Inr []"
  by code_simp

text \<open>
  Claim C2, amended. The function has no dimension check of its own; a user embedding
  of another dimension is rejected by the cosine distance of the comparison loop, which
  in SciPy refuses two vectors of different lengths with \<^verbatim>\<open>ValueError\<close>. Given that
  contract: when an embedding is present whose length differs from that of the user
  embedding, the call ends in an exception, and it is the comparison loop that raises
  it, before any clustering computation; when every present embedding differs in length
  from the user embedding (and one is present), the exception is \<^verbatim>\<open>ValueError\<close>. When
  no embedding is present nothing is rejected, whatever the user embedding: the result
  is \<^verbatim>\<open>"YOU"\<close> at every index (the empty list for the empty list).
\<close>

theorem reference_dimension_rejection:
  "(cosine_checks_lengths lib \<and> (\<exists>e. Some e \<in> set embeddings \<and> length e \<noteq> length u) \<longrightarrow>
      (\<exists>err. compare_with_user lib u t 0 embeddings
                 \<lparr>all_labels = [], other_embeddings = [], other_indices = []\<rparr> = Inl err \<and>
              cluster_speakers_personalized lib embeddings u t = Inl err)) \<and>
   (cosine_checks_lengths lib \<and> (\<exists>e. Some e \<in> set embeddings) \<and>
    (\<forall>e. Some e \<in> set embeddings \<longrightarrow> length e \<noteq> length u) \<longrightarrow>
      compare_with_user lib u t 0 embeddings
        \<lparr>all_labels = [], other_embeddings = [], other_indices = []\<rparr> = Inl ValueError \<and>
      cluster_speakers_personalized lib embeddings u t = Inl ValueError) \<and>
   ((\<forall>e\<in>set embeddings. e = None) \<longrightarrow>
      cluster_speakers_personalized lib embeddings u t =
        Inr (replicate (length embeddings) (Some ''YOU'')))"
proof (intro conjI impI)
  assume a: "cosine_checks_lengths lib \<and>
    (\<exists>e. Some e \<in> set embeddings \<and> length e \<noteq> length u)"
  then obtain e where e: "Some e \<in> set embeddings" "length e \<noteq> length u"
    by blast
  then have "cosine lib e u = Inl ValueError"
    using a by (simp add: cosine_checks_lengths_def)
  from compare_with_user_raises [OF e(1) this]
  obtain err where "compare_with_user lib u t 0 embeddings
      \<lparr>all_labels = [], other_embeddings = [], other_indices = []\<rparr> = Inl err"
    by blast
  then show "\<exists>err. compare_with_user lib u t 0 embeddings
                 \<lparr>all_labels = [], other_embeddings = [], other_indices = []\<rparr> = Inl err \<and>
              cluster_speakers_personalized lib embeddings u t = Inl err"
    using personalized_raises [OF _ e(1)] by blast
next
  assume a: "cosine_checks_lengths lib \<and> (\<exists>e. Some e \<in> set embeddings) \<and>
    (\<forall>e. Some e \<in> set embeddings \<longrightarrow> length e \<noteq> length u)"
  then obtain e where e: "Some e \<in> set embeddings" by blast
  have all: "\<forall>e. Some e \<in> set embeddings \<longrightarrow> cosine lib e u = Inl ValueError"
    using a by (simp add: cosine_checks_lengths_def)
  have ex: "\<exists>e. Some e \<in> set embeddings"
    using e by blast
  have c: "compare_with_user lib u t 0 embeddings
      \<lparr>all_labels = [], other_embeddings = [], other_indices = []\<rparr> = Inl ValueError"
    by (rule compare_with_user_error [OF all ex])
  show "compare_with_user lib u t 0 embeddings
        \<lparr>all_labels = [], other_embeddings = [], other_indices = []\<rparr> = Inl ValueError"
    by (rule c)
  show "cluster_speakers_personalized lib embeddings u t = Inl ValueError"
    by (rule personalized_raises [OF c e])
next
  assume a: "\<forall>e\<in>set embeddings. e = None"
  then have "valid_embeddings embeddings = []"
    by (simp add: valid_embeddings_Nil_iff)
  then show "cluster_speakers_personalized lib embeddings u t =
        Inr (replicate (length embeddings) (Some ''YOU''))"
    by (simp add: cluster_speakers_personalized_def)
qed

theorem reference_dimension_rejection_witness:
  "cosine_checks_lengths sample_lib \<and>
   cluster_speakers_personalized sample_lib [Some [1, 0], None] [1] (45 / 100) = Inl ValueError \<and>
   (\<exists>err. cluster_speakers_personalized sample_lib [Some [1], Some [1, 0]] [1] (45 / 100) =
      Inl err) \<and>
   cluster_speakers_personalized sample_lib [None, None] [1] (45 / 100) =
     Inr [Some ''YOU'', Some ''YOU'']"
proof -
  let ?embs = "[Some [1, 0], None :: vec option]"
  let ?mixed = "[Some [1], Some [1, 0 :: real]]"
  have h0: "cosine_checks_lengths sample_lib"
    by (simp add: cosine_checks_lengths_def sample_lib_def)
  have h1: "(\<exists>e. Some e \<in> set ?embs) \<and>
    (\<forall>e. Some e \<in> set ?embs \<longrightarrow> length e \<noteq> length [1 :: real])"
    by auto
  have a: "cluster_speakers_personalized sample_lib ?embs [1] (45 / 100) = Inl ValueError"
    using reference_dimension_rejection [of sample_lib ?embs "[1]" "45 / 100"] h0 h1
    by blast
  have h2: "\<exists>e. Some e \<in> set ?mixed \<and> length e \<noteq> length [1 :: real]"
    by auto
  have b: "\<exists>err. cluster_speakers_personalized sample_lib ?mixed [1] (45 / 100) = Inl err"
    using reference_dimension_rejection [of sample_lib ?mixed "[1]" "45 / 100"] h0 h2
    by blast
  have h3: "\<forall>e\<in>set [None, None :: vec option]. e = None"
    by simp
  have c: "cluster_speakers_personalized sample_lib [None, None] [1] (45 / 100) =
     Inr [Some ''YOU'', Some ''YOU'']"
    using reference_dimension_rejection [of sample_lib "[None, None]" "[1]" "45 / 100"] h3
    by (simp add: numeral_eq_Suc)
  show ?thesis using h0 a b c by blast
qed

text \<open>
  Claim C3 (single-speaker short-circuit). With at least two valid embeddings, when the
  maximum of the pairwise distances of the standardized matrix of the valid embeddings
  is strictly below 19, \<^verbatim>\<open>cluster_speakers\<close> returns \<^verbatim>\<open>"speaker_0"\<close> at every index,
  valid or not. The hypotheses name the values the library calls return on the way.
\<close>

theorem single_speaker_short_circuit:
  assumes "2 \<le> length (filter (\<lambda>e. e \<noteq> None) embeddings)"
    and "np_vstack (valid_embeddings embeddings) = Inr X"
    and "fit_transform lib X = Inr X_scaled"
    and "linkage lib X_scaled = Inr linkage_matrix"
    and "pdist lib X_scaled = Inr distances"
    and "np_max distances = Inr max_distance"
    and "max_distance < 19"
  shows "cluster_speakers lib embeddings segments =
           Inr (replicate (length embeddings) ''speaker_0'')"
proof -
  have X: "X = valid_embeddings embeddings"
    using assms(2) by (simp add: np_vstack_Inr)
  have len: "\<not> length X < 2"
    using assms(1) by (simp add: X valid_embeddings_conv)
  have ne: "embeddings \<noteq> []" "valid_embeddings embeddings \<noteq> []"
    using assms(1) len X by auto
  show ?thesis
    using ne len assms(2-7)
    by (simp add: cluster_speakers_def select_n_clusters_def final_clustering_def)
qed

theorem single_speaker_short_circuit_witness:
  "cluster_speakers sample_lib [Some [0], None, Some [3]] ([] :: unit list) =
     Inr [''speaker_0'', ''speaker_0'', ''speaker_0'']"
proof -
  have h1: "2 \<le> length (filter (\<lambda>e. e \<noteq> None) [Some [0], None, Some [3 :: real]])"
    by simp
  have h2: "np_vstack (valid_embeddings [Some [0], None, Some [3]]) = Inr [[0], [3]]"
    by code_simp
  have h3: "fit_transform sample_lib [[0], [3]] = Inr [[0], [3]]"
    by code_simp
  have h4: "linkage sample_lib [[0], [3]] = Inr []"
    by code_simp
  have h5: "pdist sample_lib [[0], [3]] = Inr [3]"
    by code_simp
  have h6: "np_max [3] = Inr 3"
    by code_simp
  have h7: "(3 :: real) < 19"
    by simp
  from single_speaker_short_circuit [OF h1 h2 h3 h4 h5 h6 h7, of "[] :: unit list"]
  show ?thesis
    by (simp add: numeral_eq_Suc)
qed

text \<open>
  Claim C4 (cluster-count selection). When the short-circuit does not apply,
  \<^verbatim>\<open>cluster_speakers\<close> scans the candidates \<open>k = 2, \<dots>, min(10, |valid| - 1)\<close> in
  increasing order; \<open>part k\<close> is the Ward partition of candidate \<open>k\<close> and \<open>score k\<close>
  its silhouette score, computed only when the partition has more than one distinct
  label. The selected number of clusters is the smallest scored candidate of highest
  score: no scored candidate scores higher, and every smaller scored candidate scores
  strictly lower. The scan starts from the code's initial best (score -1, k = 2), which
  is kept when no scored candidate beats -1. The final clustering runs with the selected
  number.
\<close>

theorem cluster_count_selection:
  assumes "2 \<le> length (filter (\<lambda>e. e \<noteq> None) embeddings)"
    and "np_vstack (valid_embeddings embeddings) = Inr X"
    and "fit_transform lib X = Inr X_scaled"
    and "linkage lib X_scaled = Inr linkage_matrix"
    and "pdist lib X_scaled = Inr distances"
    and "np_max distances = Inr max_distance"
    and "\<not> max_distance < 19"
    and "\<forall>k\<in>{2..min 10 (length X - 1)}. fit_predict lib k X_scaled = Inr (part k)"
    and "\<forall>k\<in>{2..min 10 (length X - 1)}. 1 < card (set (part k)) \<longrightarrow>
           silhouette_score lib X_scaled (part k) = Inr (score k)"
  shows "\<exists>n. select_n_clusters lib X_scaled (length X) max_distance = Inr n \<and>
           cluster_speakers lib embeddings segments =
             final_clustering lib X_scaled embeddings n \<and>
           (if \<exists>k\<in>{2..min 10 (length X - 1)}. 1 < card (set (part k)) \<and> - 1 < score k
            then n \<in> {2..min 10 (length X - 1)} \<and> 1 < card (set (part n)) \<and>
                 (\<forall>k\<in>{2..min 10 (length X - 1)}. 1 < card (set (part k)) \<longrightarrow>
                    score k \<le> score n \<and> (k < n \<longrightarrow> score k < score n))
            else n = 2)"
proof -
  let ?ks = "[2..<min 10 (length X - 1) + 1]"
  have ks: "set ?ks = {2..min 10 (length X - 1)}" by auto
  have a8: "\<forall>k\<in>set ?ks. fit_predict lib k X_scaled = Inr (part k)"
    unfolding ks by (rule assms(8))
  have a9: "\<forall>k\<in>set ?ks. 1 < card (set (part k)) \<longrightarrow>
           silhouette_score lib X_scaled (part k) = Inr (score k)"
    unfolding ks by (rule assms(9))
  have srt: "sorted ?ks" and dst: "distinct ?ks"
    by (rule sorted_upt, rule distinct_upt)
  from silhouette_search_spec [OF a8 a9 srt dst, of "- 1" 2]
  obtain bs bn where r: "silhouette_search lib X_scaled (- 1, 2) ?ks = Inr (bs, bn)"
    and ge: "- 1 \<le> bs"
    and mx: "\<forall>k\<in>set ?ks. 1 < card (set (part k)) \<longrightarrow> score k \<le> bs"
    and ch: "(bs, bn) = (- 1, 2) \<or>
            (bn \<in> set ?ks \<and> 1 < card (set (part bn)) \<and> score bn = bs \<and> - 1 < bs \<and>
             (\<forall>k\<in>set ?ks. 1 < card (set (part k)) \<and> k < bn \<longrightarrow> score k < bs))"
    by blast
  have sel: "select_n_clusters lib X_scaled (length X) max_distance = Inr bn"
    using assms(7) r by (simp add: select_n_clusters_def)
  have cs: "cluster_speakers lib embeddings segments =
             final_clustering lib X_scaled embeddings bn"
    using cluster_speakers_path [OF assms(1-6)] sel by simp
  have "if \<exists>k\<in>{2..min 10 (length X - 1)}. 1 < card (set (part k)) \<and> - 1 < score k
            then bn \<in> {2..min 10 (length X - 1)} \<and> 1 < card (set (part bn)) \<and>
                 (\<forall>k\<in>{2..min 10 (length X - 1)}. 1 < card (set (part k)) \<longrightarrow>
                    score k \<le> score bn \<and> (k < bn \<longrightarrow> score k < score bn))
            else bn = 2"
  proof (cases "\<exists>k\<in>{2..min 10 (length X - 1)}. 1 < card (set (part k)) \<and> - 1 < score k")
    case True
    then obtain k where k: "k \<in> set ?ks" "1 < card (set (part k))" "- 1 < score k"
      unfolding ks by blast
    then have "- 1 < bs" using mx by force
    then have "bn \<in> set ?ks \<and> 1 < card (set (part bn)) \<and> score bn = bs \<and>
             (\<forall>k\<in>set ?ks. 1 < card (set (part k)) \<and> k < bn \<longrightarrow> score k < bs)"
      using ch by auto
    then show ?thesis using True mx unfolding ks by auto
  next
    case False
    then have "\<not> - 1 < bs" using ch unfolding ks by auto
    then have "bn = 2" using ch by auto
    then show ?thesis using False by (simp only: if_False)
  qed
  then show ?thesis using sel cs by blast
qed

theorem cluster_count_selection_witness:
  "select_n_clusters sample_lib [[0], [1], [40], [41], [80]] 5 80 = Inr 3 \<and>
   cluster_speakers sample_lib [Some [0], Some [1], None, Some [40], Some [41], Some [80]]
     ([] :: unit list) =
   Inr [''speaker_0'', ''speaker_1'', ''speaker_0'', ''speaker_2'', ''speaker_0'', ''speaker_1'']"
proof -
  let ?embs = "[Some [0], Some [1], None, Some [40], Some [41], Some [80 :: real]]"
  let ?X = "[[0], [1], [40], [41], [80 :: real]]"
  let ?part = "\<lambda>k. round_robin k 0 ?X"
  let ?score = "\<lambda>k. if card (set (?part k)) = 3 then 3 / 4 else (1 / 2 :: real)"
  have h1: "2 \<le> length (filter (\<lambda>e. e \<noteq> None) ?embs)"
    by simp
  have h2: "np_vstack (valid_embeddings ?embs) = Inr ?X"
    by code_simp
  have h3: "fit_transform sample_lib ?X = Inr ?X"
    by code_simp
  have h4: "linkage sample_lib ?X = Inr []"
    by code_simp
  have h5: "pdist sample_lib ?X = Inr [1, 40, 41, 80, 39, 40, 79, 1, 40, 39]"
    by code_simp
  have h6: "np_max [1, 40, 41, 80, 39, 40, 79, 1, 40, 39] = Inr 80"
    by code_simp
  have h7: "\<not> (80 :: real) < 19"
    by simp
  have h8: "\<forall>k\<in>{2..min 10 (length ?X - 1)}. fit_predict sample_lib k ?X = Inr (?part k)"
    by (simp add: sample_lib_def)
  have h9: "\<forall>k\<in>{2..min 10 (length ?X - 1)}. 1 < card (set (?part k)) \<longrightarrow>
           silhouette_score sample_lib ?X (?part k) = Inr (?score k)"
    by (simp add: sample_lib_def)
  from cluster_count_selection [OF h1 h2 h3 h4 h5 h6 h7 h8 h9, of "[] :: unit list"]
  obtain n where n: "select_n_clusters sample_lib ?X (length ?X) 80 = Inr n"
    and c: "cluster_speakers sample_lib ?embs ([] :: unit list) =
             final_clustering sample_lib ?X ?embs n"
    by blast
  have s: "select_n_clusters sample_lib ?X 5 80 = Inr 3"
    by code_simp
  have l: "length ?X = 5" by simp
  have "n = 3" using n [unfolded l] s by simp
  moreover have "final_clustering sample_lib ?X ?embs 3 =
    Inr [''speaker_0'', ''speaker_1'', ''speaker_0'', ''speaker_2'', ''speaker_0'', ''speaker_1'']"
    by code_simp
  ultimately show ?thesis using s c by simp
qed

text \<open>
  Claim C5 (majority fallback). In a result of \<^verbatim>\<open>cluster_speakers\<close>, an index \<open>i\<close>
  without embedding carries a label that occurs among the labels of the valid indices
  and that is the most frequent there, ties going to the lowest cluster id: for every
  valid index \<open>j\<close>, the label of \<open>j\<close> is not more frequent among the labels of the
  valid indices than the label of \<open>i\<close>, and when both are equally frequent the cluster
  id of \<open>i\<close> is at most that of \<open>j\<close>. The library is assumed to return one label per
  row.
\<close>

theorem majority_fallback:
  assumes "keeps_rows lib"
    and "cluster_speakers lib embeddings segments = Inr labels"
    and "i < length embeddings" and "embeddings ! i = None"
    and "j < length embeddings" and "embeddings ! j \<noteq> None"
  shows "\<exists>a b. labels ! i = speaker_label a \<and> labels ! j = speaker_label b \<and>
           labels ! i \<in> set (map (\<lambda>k. labels ! k) (valid_indices embeddings)) \<and>
           count_list (map (\<lambda>k. labels ! k) (valid_indices embeddings)) (labels ! j) \<le>
             count_list (map (\<lambda>k. labels ! k) (valid_indices embeddings)) (labels ! i) \<and>
           (count_list (map (\<lambda>k. labels ! k) (valid_indices embeddings)) (labels ! j) =
              count_list (map (\<lambda>k. labels ! k) (valid_indices embeddings)) (labels ! i) \<longrightarrow>
            a \<le> b)"
proof -
  let ?V = "map (\<lambda>k. labels ! k) (valid_indices embeddings)"
  have jv: "j \<in> set (valid_indices embeddings)"
    using assms(5,6) by (simp add: valid_indices_def)
  from cluster_speakers_cases [OF assms(2)]
  show ?thesis
  proof (elim disjE exE conjE)
    assume l: "labels = replicate (length embeddings) ''speaker_0''"
    have "labels ! i = speaker_label 0" "labels ! j = speaker_label 0"
      using l assms(3,5) by (simp_all add: speaker_label_0)
    moreover have "labels ! j \<in> set ?V"
      using jv by simp
    ultimately show ?thesis
      by (intro exI [of _ 0]) simp
  next
    fix X_scaled n vl mcl
    assume ft: "fit_transform lib (valid_embeddings embeddings) = Inr X_scaled"
      and fp: "fit_predict lib n X_scaled = Inr vl"
      and am: "np_argmax (np_bincount vl) = Inr mcl"
      and ml: "map_labels_back embeddings vl mcl [] 0 = Inr labels"
    let ?nv = "length (filter (\<lambda>e. e \<noteq> None) embeddings)"
    have "length vl = length X_scaled" "length X_scaled = length (valid_embeddings embeddings)"
      using assms(1) ft fp by (auto simp: keeps_rows_def)
    then have lvl: "length vl = ?nv"
      by (simp add: valid_embeddings_conv)
    from map_labels_back_spec [OF ml]
    have len: "length labels = length embeddings"
      and z: "map snd (filter (\<lambda>p. fst p \<noteq> None) (zip embeddings labels)) =
                map speaker_label (take ?nv (drop 0 vl))"
      and none: "\<forall>i<length embeddings. embeddings ! i = None \<longrightarrow> labels ! i = speaker_label mcl"
      by auto
    have V: "?V = map speaker_label vl"
      using valid_labels_zip [OF len] z lvl by simp
    have li: "labels ! i = speaker_label mcl"
      using none assms(3,4) by simp
    have "labels ! j \<in> set ?V" using jv by simp
    then obtain b where b: "b \<in> set vl" "labels ! j = speaker_label b"
      unfolding V by auto
    have cnt: "count_list (map speaker_label vl) (speaker_label c) = count_list vl c" for c
      by (rule count_list_map_conv) (auto simp: inj_on_def speaker_label_inj)
    from most_common_spec [OF am]
    have m: "mcl \<in> set vl" "count_list vl b \<le> count_list vl mcl"
      "b < mcl \<longrightarrow> count_list vl b < count_list vl mcl"
      by auto
    have "labels ! i \<in> set ?V" unfolding V li using m(1) by simp
    moreover have "count_list ?V (labels ! j) \<le> count_list ?V (labels ! i)"
      unfolding V li b(2) cnt using m(2) .
    moreover have "count_list ?V (labels ! j) = count_list ?V (labels ! i) \<longrightarrow> mcl \<le> b"
      unfolding V li b(2) cnt using m(3) by auto
    ultimately show ?thesis using li b(2) by blast
  qed
qed

theorem majority_fallback_witness:
  "cluster_speakers sample_lib [Some [0], Some [1], None, Some [40], Some [41], Some [80]]
     ([] :: unit list) =
   Inr [''speaker_0'', ''speaker_1'', ''speaker_0'', ''speaker_2'', ''speaker_0'', ''speaker_1''] \<and>
   (\<exists>a b. ''speaker_0'' = speaker_label a \<and> ''speaker_1'' = speaker_label b \<and> a \<le> b)"
proof -
  let ?embs = "[Some [0], Some [1], None, Some [40], Some [41], Some [80 :: real]]"
  let ?labels = "[''speaker_0'', ''speaker_1'', ''speaker_0'', ''speaker_2'', ''speaker_0'', ''speaker_1'']"
  have rr: "length (round_robin n k X) = length X" for n k and X :: matrix
    by (induction X arbitrary: k) simp_all
  have h1: "keeps_rows sample_lib"
    by (auto simp: keeps_rows_def sample_lib_def rr)
  have h2: "cluster_speakers sample_lib ?embs ([] :: unit list) = Inr ?labels"
    by code_simp
  have h3: "2 < length ?embs" and h4: "?embs ! 2 = None"
    and h5: "1 < length ?embs" and h6: "?embs ! 1 \<noteq> None"
    by simp_all
  from majority_fallback [OF h1 h2 h3 h4 h5 h6]
  obtain a b where "?labels ! 2 = speaker_label a" "?labels ! 1 = speaker_label b"
    and tie: "count_list (map (\<lambda>k. ?labels ! k) (valid_indices ?embs)) (?labels ! 1) =
              count_list (map (\<lambda>k. ?labels ! k) (valid_indices ?embs)) (?labels ! 2) \<longrightarrow> a \<le> b"
    by blast
  moreover have "count_list (map (\<lambda>k. ?labels ! k) (valid_indices ?embs)) (?labels ! 1) =
              count_list (map (\<lambda>k. ?labels ! k) (valid_indices ?embs)) (?labels ! 2)"
    by code_simp
  ultimately have "''speaker_0'' = speaker_label a \<and> ''speaker_1'' = speaker_label b \<and> a \<le> b"
    by simp
  then show ?thesis using h2 by blast
qed







text \<open>
  Claim C8 (threshold monotonicity). For a fixed embedding list and user embedding and
  thresholds \<open>t1 \<le> t2\<close>, the result under \<open>t2\<close> has at least as many labels of the
  \<^verbatim>\<open>"OTHER"\<close> family as the result under \<open>t1\<close>.
\<close>

theorem threshold_monotonicity:
  assumes "t1 \<le> t2"
    and "cluster_speakers_personalized lib embeddings user_embedding t1 = Inr labels1"
    and "cluster_speakers_personalized lib embeddings user_embedding t2 = Inr labels2"
  shows "length (filter other_family labels1) \<le> length (filter other_family labels2)"
  unfolding other_count [OF assms(2)] other_count [OF assms(3)]
  using assms(1) by (intro length_filter_mono) (rule pending_other_mono)

theorem threshold_monotonicity_witness:
  "cluster_speakers_personalized sample_lib [Some [1, 0], Some [3 / 10, 0], Some [0, 1]] [1, 0]
     (2 / 10) = Inr [Some ''YOU'', Some ''YOU'', Some ''OTHER''] \<and>
   cluster_speakers_personalized sample_lib [Some [1, 0], Some [3 / 10, 0], Some [0, 1]] [1, 0]
     (45 / 100) = Inr [Some ''YOU'', Some ''OTHER'', Some ''OTHER''] \<and>
   length (filter other_family [Some ''YOU'', Some ''YOU'', Some ''OTHER'']) \<le>
   length (filter other_family [Some ''YOU'', Some ''OTHER'', Some ''OTHER''])"
proof -
  let ?embs = "[Some [1, 0], Some [3 / 10, 0], Some [0, 1 :: real]]"
  have h1: "(2 / 10 :: real) \<le> 45 / 100"
    by simp
  have h2: "cluster_speakers_personalized sample_lib ?embs [1, 0] (2 / 10) =
              Inr [Some ''YOU'', Some ''YOU'', Some ''OTHER'']"
    by code_simp
  have h3: "cluster_speakers_personalized sample_lib ?embs [1, 0] (45 / 100) =
              Inr [Some ''YOU'', Some ''OTHER'', Some ''OTHER'']"
    by code_simp
  from threshold_monotonicity [OF h1 h2 h3] h2 h3 show ?thesis
    by blast
qed

text \<open>
  Claim C9 (degenerate-input fallback). For a non-empty list without any embedding,
  \<^verbatim>\<open>cluster_speakers\<close> returns \<^verbatim>\<open>"speaker_0"\<close> at every index and
  \<^verbatim>\<open>cluster_speakers_personalized\<close> returns \<^verbatim>\<open>"YOU"\<close> at every index; for a list
  with exactly one embedding, \<^verbatim>\<open>cluster_speakers\<close> returns \<^verbatim>\<open>"speaker_0"\<close> at every
  index. In all three cases the result is a value, not an exception, whatever the
  library does.
\<close>

theorem degenerate_input_fallback:
  "(embeddings \<noteq> [] \<and> (\<forall>e\<in>set embeddings. e = None) \<longrightarrow>
      cluster_speakers lib embeddings segments =
        Inr (replicate (length embeddings) ''speaker_0'') \<and>
      cluster_speakers_personalized lib embeddings user_embedding similarity_threshold =
        Inr (replicate (length embeddings) (Some ''YOU''))) \<and>
   (length (filter (\<lambda>e. e \<noteq> None) embeddings) = 1 \<longrightarrow>
      cluster_speakers lib embeddings segments =
        Inr (replicate (length embeddings) ''speaker_0''))"
proof (intro conjI impI)
  assume a: "embeddings \<noteq> [] \<and> (\<forall>e\<in>set embeddings. e = None)"
  then have v: "valid_embeddings embeddings = []"
    by (simp add: valid_embeddings_Nil_iff)
  show "cluster_speakers lib embeddings segments =
        Inr (replicate (length embeddings) ''speaker_0'')"
    using a v by (simp add: cluster_speakers_def)
  show "cluster_speakers_personalized lib embeddings user_embedding similarity_threshold =
        Inr (replicate (length embeddings) (Some ''YOU''))"
    using a v by (simp add: cluster_speakers_personalized_def)
next
  assume one: "length (filter (\<lambda>e. e \<noteq> None) embeddings) = 1"
  then have "length (valid_embeddings embeddings) = 1"
    by (simp add: valid_embeddings_conv)
  then obtain e where v: "valid_embeddings embeddings = [e]"
    by (cases "valid_embeddings embeddings") auto
  have ne: "embeddings \<noteq> []" using one by auto
  show "cluster_speakers lib embeddings segments =
        Inr (replicate (length embeddings) ''speaker_0'')"
    using ne v by (simp add: cluster_speakers_def np_vstack_single)
qed

theorem degenerate_input_fallback_witness:
  "cluster_speakers sample_lib [None, None] ([] :: unit list) =
     Inr [''speaker_0'', ''speaker_0''] \<and>
   cluster_speakers_personalized sample_lib [None, None] [1, 0] (45 / 100) =
     Inr [Some ''YOU'', Some ''YOU''] \<and>
   cluster_speakers sample_lib [None, Some [3, 4], None] ([] :: unit list) =
     Inr [''speaker_0'', ''speaker_0'', ''speaker_0'']"
proof -
  have h1: "[None, None] \<noteq> [] \<and> (\<forall>e\<in>set [None, None :: vec option]. e = None)"
    by simp
  have h2: "length (filter (\<lambda>e. e \<noteq> None) [None, Some [3, 4 :: real], None]) = 1"
    by simp
  from degenerate_input_fallback
    [of "[None, None]" sample_lib "[] :: unit list" "[1, 0]" "45 / 100"] h1
  have "cluster_speakers sample_lib [None, None] ([] :: unit list) =
          Inr (replicate (length [None, None :: vec option]) ''speaker_0'') \<and>
        cluster_speakers_personalized sample_lib [None, None] [1, 0] (45 / 100) =
          Inr (replicate (length [None, None :: vec option]) (Some ''YOU''))"
    by blast
  moreover from degenerate_input_fallback
    [of "[None, Some [3, 4], None]" sample_lib "[] :: unit list"] h2
  have "cluster_speakers sample_lib [None, Some [3, 4], None] ([] :: unit list) =
          Inr (replicate (length [None, Some [3, 4 :: real], None]) ''speaker_0'')"
    by blast
  ultimately show ?thesis
    by (simp add: numeral_eq_Suc)
qed

text \<open>
  Claim C10 (purity and determinism). Let the results of the library calls depend on
  their arguments alone (the Ward clustering and the silhouette score are deterministic),
  whatever state the calls read and leave. Then the labels that a run of
  \<^verbatim>\<open>cluster_speakers\<close> returns are a function of the embedding list: they are those of
  the state-free \<^verbatim>\<open>cluster_speakers\<close>, and any two runs on equal embedding lists, from
  any two program states and with any two values of the \<^verbatim>\<open>segments\<close> argument, return
  identical results. The function itself reads no state; its two \<^verbatim>\<open>print\<close> calls write
  to the output and do not affect the labels.
\<close>

theorem labels_depend_on_embeddings_only:
  assumes "results_of rt lib"
  shows "fst (cluster_speakers_run rt embeddings segments w) =
           cluster_speakers lib embeddings segments \<and>
         fst (cluster_speakers_run rt embeddings segments w) =
           fst (cluster_speakers_run rt embeddings segments' w')"
  using cluster_speakers_run_labels [OF assms, of embeddings segments w segments]
    cluster_speakers_run_labels [OF assms, of embeddings segments' w' segments]
  by simp

theorem labels_depend_on_embeddings_only_witness:
  "results_of sample_runtime sample_lib \<and>
   cluster_speakers_run sample_runtime [Some [0], None, Some [30]]
       [(0 :: nat, 1 :: nat), (1, 2), (2, 3)] (0, []) =
     (Inr [''speaker_0'', ''speaker_0'', ''speaker_1''], (4, [Detected 2])) \<and>
   cluster_speakers_run sample_runtime [Some [0], None, Some [30]] ([] :: unit list)
       (7, [No_valid_embeddings]) =
     (Inr [''speaker_0'', ''speaker_0'', ''speaker_1''], (11, [No_valid_embeddings, Detected 2])) \<and>
   fst (cluster_speakers_run sample_runtime [Some [0], None, Some [30]]
       [(0 :: nat, 1 :: nat), (1, 2), (2, 3)] (0, [])) =
   fst (cluster_speakers_run sample_runtime [Some [0], None, Some [30]] ([] :: unit list)
       (7, [No_valid_embeddings]))"
proof -
  have r1: "cluster_speakers_run sample_runtime [Some [0], None, Some [30]]
       [(0 :: nat, 1 :: nat), (1, 2), (2, 3)] (0, []) =
     (Inr [''speaker_0'', ''speaker_0'', ''speaker_1''], (4, [Detected 2]))"
    by code_simp
  have r2: "cluster_speakers_run sample_runtime [Some [0], None, Some [30]] ([] :: unit list)
       (7, [No_valid_embeddings]) =
     (Inr [''speaker_0'', ''speaker_0'', ''speaker_1''], (11, [No_valid_embeddings, Detected 2]))"
    by code_simp
  from labels_depend_on_embeddings_only [OF results_of_sample,
      of "[Some [0], None, Some [30]]" "[(0 :: nat, 1 :: nat), (1, 2), (2, 3)]" "(0, [])"
         "[] :: unit list" "(7, [No_valid_embeddings])"]
  show ?thesis
    using results_of_sample r1 r2 by blast
qed

end
